theory Spec2Isabelle
  imports Main
begin

section \<open>Strings and numbers of the host language\<close>

text \<open>
  A script string is modelled as a \<^typ>\<open>string\<close> whose characters are the code units
  U+0000 .. U+00FF. \<open>trim\<close> removes the white space and line terminators of the
  language at both ends; in this range they are TAB, LF, VT, FF, CR, SPACE and NBSP.
\<close>

definition isWhiteSpace :: "char \<Rightarrow> bool" where
  "isWhiteSpace c =
     (c = CHR 0x09 \<or> c = CHR 0x0A \<or> c = CHR 0x0B \<or> c = CHR 0x0C \<or> c = CHR 0x0D
      \<or> c = CHR 0x20 \<or> c = CHR 0xA0)"

definition trim :: "string \<Rightarrow> string" where
  "trim s = rev (dropWhile isWhiteSpace (rev (dropWhile isWhiteSpace s)))"

definition toLowerChar :: "char \<Rightarrow> char" where
  "toLowerChar c =
     (let n = (of_char c :: nat)
      in if (65 \<le> n \<and> n \<le> 90) \<or> (192 \<le> n \<and> n \<le> 222 \<and> n \<noteq> 215)
         then char_of (n + 32) else c)"

definition toLowerCase :: "string \<Rightarrow> string" where
  "toLowerCase s = map toLowerChar s"

text \<open>\<open>xs.join(sep)\<close> and \<open>s.repeat(n)\<close>.\<close>

fun join :: "string \<Rightarrow> string list \<Rightarrow> string" where
  "join sep [] = []"
| "join sep [x] = x"
| "join sep (x # y # ys) = x @ sep @ join sep (y # ys)"

definition repeat :: "string \<Rightarrow> nat \<Rightarrow> string" where
  "repeat s n = concat (replicate n s)"

text \<open>
  A number is either NaN or an integer (the values \<open>parseInt\<close> can return; rounding
  to a double beyond \<open>2^53\<close> is not represented). \<open>parseInt10 s\<close> is \<open>parseInt(s, 10)\<close>:
  leading white space is skipped, one sign is read, then the longest run of decimal
  digits; no digit at all gives NaN.
\<close>

datatype jsnumber = NaN | Num int

definition isDigit :: "char \<Rightarrow> bool" where
  "isDigit c = (48 \<le> (of_char c :: nat) \<and> (of_char c :: nat) \<le> 57)"

definition digitsValue :: "string \<Rightarrow> nat" where
  "digitsValue ds = foldl (\<lambda>acc c. 10 * acc + ((of_char c :: nat) - 48)) 0 ds"

definition parseInt10 :: "string \<Rightarrow> jsnumber" where
  "parseInt10 s =
     (let s1 = dropWhile isWhiteSpace s;
          neg = (s1 \<noteq> [] \<and> hd s1 = CHR ''-'');
          s2 = (if s1 \<noteq> [] \<and> (hd s1 = CHR ''-'' \<or> hd s1 = CHR ''+'') then tl s1 else s1);
          ds = takeWhile isDigit s2
      in if ds = [] then NaN
         else Num ((if neg then - 1 else 1) * int (digitsValue ds)))"

text \<open>The decimal rendering of a counter inside a template literal.\<close>

fun showNat :: "nat \<Rightarrow> string" where
  "showNat n =
     (if n < 10 then [''0123456789'' ! n]
      else showNat (n div 10) @ [''0123456789'' ! (n mod 10)])"

declare showNat.simps [simp del]

section \<open>The document tree of the platform\<close>

text \<open>
  The tree a markup parser of the platform returns: elements with their attributes in
  source order and their child nodes, text, CDATA sections, comments and processing
  instructions. A document holds its top-level nodes.
\<close>

datatype node =
    Element (tagName: string) (attributes: "(string \<times> string) list") (childNodes: "node list")
  | Text string
  | CDATASection string
  | Comment string
  | ProcessingInstruction string string

datatype document = Document "node list"

fun isElement :: "node \<Rightarrow> bool" where
  "isElement (Element t as cs) = True"
| "isElement n = False"

fun isText :: "node \<Rightarrow> bool" where
  "isText (Text s) = True"
| "isText n = False"

fun isComment :: "node \<Rightarrow> bool" where
  "isComment (Comment s) = True"
| "isComment n = False"

text \<open>\<open>el.children\<close>: the child nodes that are elements.\<close>

definition children :: "node \<Rightarrow> node list" where
  "children el = filter isElement (childNodes el)"

text \<open>\<open>el.getAttribute(name)\<close>: the value of the first attribute of that name, or null.\<close>

definition getAttribute :: "node \<Rightarrow> string \<Rightarrow> string option" where
  "getAttribute el name = map_of (attributes el) name"

text \<open>
  \<open>textContent\<close>: for an element the data of its text descendants (CDATA included) in
  document order, comments and processing instructions left out; for a text, comment or
  processing-instruction node its own data.
\<close>

fun descendantText :: "node \<Rightarrow> string" where
  "descendantText (Element t as cs) = concat (map descendantText cs)"
| "descendantText (Text s) = s"
| "descendantText (CDATASection s) = s"
| "descendantText (Comment s) = []"
| "descendantText (ProcessingInstruction t s) = []"

fun textContent :: "node \<Rightarrow> string" where
  "textContent (Comment s) = s"
| "textContent (ProcessingInstruction t s) = s"
| "textContent n = descendantText n"

text \<open>
  Selectors. \<open>subtreeElements n\<close> lists the elements of the subtree of \<open>n\<close> in document
  order, \<open>n\<close> first when it is an element. \<open>el.querySelector\<close> looks among the
  descendants of \<open>el\<close> (never \<open>el\<close> itself) and returns the first match,
  \<open>querySelectorAll\<close> all of them. A type selector compares the local name (the
  qualified name after its prefix), case-sensitively in a markup document; a class
  selector looks for the token in the white-space separated \<open>class\<close> attribute.
\<close>

fun subtreeElements :: "node \<Rightarrow> node list" where
  "subtreeElements (Element t as cs) = Element t as cs # concat (map subtreeElements cs)"
| "subtreeElements n = []"

definition descendantElements :: "node \<Rightarrow> node list" where
  "descendantElements el = concat (map subtreeElements (childNodes el))"

fun documentElements :: "document \<Rightarrow> node list" where
  "documentElements (Document ns) = concat (map subtreeElements ns)"

definition localName :: "string \<Rightarrow> string" where
  "localName q = (if CHR '':'' \<in> set q then tl (dropWhile (\<lambda>c. c \<noteq> CHR '':'') q) else q)"

definition matchesType :: "string \<Rightarrow> node \<Rightarrow> bool" where
  "matchesType name el = (isElement el \<and> localName (tagName el) = name)"

fun isAsciiSpace :: "char \<Rightarrow> bool" where
  "isAsciiSpace c = (c = CHR 0x09 \<or> c = CHR 0x0A \<or> c = CHR 0x0C \<or> c = CHR 0x0D \<or> c = CHR 0x20)"

fun splitTokens :: "string \<Rightarrow> string \<Rightarrow> string list" where
  "splitTokens cur [] = (if cur = [] then [] else [cur])"
| "splitTokens cur (c # cs) =
     (if isAsciiSpace c then (if cur = [] then splitTokens [] cs else cur # splitTokens [] cs)
      else splitTokens (cur @ [c]) cs)"

definition matchesClass :: "string \<Rightarrow> node \<Rightarrow> bool" where
  "matchesClass name el =
     (isElement el \<and>
      (case getAttribute el ''class'' of
         None \<Rightarrow> False
       | Some v \<Rightarrow> name \<in> set (splitTokens [] v)))"

definition querySelector :: "(node \<Rightarrow> bool) \<Rightarrow> node \<Rightarrow> node option" where
  "querySelector sel el = find sel (descendantElements el)"

definition querySelectorAll :: "(node \<Rightarrow> bool) \<Rightarrow> node \<Rightarrow> node list" where
  "querySelectorAll sel el = filter sel (descendantElements el)"

definition docQuerySelector :: "(node \<Rightarrow> bool) \<Rightarrow> document \<Rightarrow> node option" where
  "docQuerySelector sel doc = find sel (documentElements doc)"

text \<open>
  \<open>innerHTML\<close> of an element of a markup document: the serialization of its child nodes.
  Text escapes \<open>&\<close>, \<open><\<close> and \<open>>\<close>; an attribute value also the double quote, TAB, LF
  and CR; an element without child nodes is written as an empty-element tag.
\<close>

fun escapeText :: "string \<Rightarrow> string" where
  "escapeText [] = []"
| "escapeText (c # cs) =
     (if c = CHR ''&'' then ''&amp;'' else if c = CHR ''<'' then ''&lt;''
      else if c = CHR ''>'' then ''&gt;'' else [c]) @ escapeText cs"

fun escapeAttr :: "string \<Rightarrow> string" where
  "escapeAttr [] = []"
| "escapeAttr (c # cs) =
     (if c = CHR ''&'' then ''&amp;'' else if c = CHR ''<'' then ''&lt;''
      else if c = CHR ''>'' then ''&gt;'' else if c = CHR 0x22 then ''&quot;''
      else if c = CHR 0x09 then ''&#9;'' else if c = CHR 0x0A then ''&#10;''
      else if c = CHR 0x0D then ''&#13;'' else [c]) @ escapeAttr cs"

definition serializeAttrs :: "(string \<times> string) list \<Rightarrow> string" where
  "serializeAttrs as =
     concat (map (\<lambda>(n, v). '' '' @ n @ ''='' @ [CHR 0x22] @ escapeAttr v @ [CHR 0x22]) as)"

fun serializeNode :: "node \<Rightarrow> string" where
  "serializeNode (Element t as cs) =
     (if cs = [] then ''<'' @ t @ serializeAttrs as @ ''/>''
      else ''<'' @ t @ serializeAttrs as @ ''>'' @ concat (map serializeNode cs)
           @ ''</'' @ t @ ''>'')"
| "serializeNode (Text s) = escapeText s"
| "serializeNode (CDATASection s) = ''<![CDATA['' @ s @ '']]>''"
| "serializeNode (Comment s) = ''<!--'' @ s @ ''-->''"
| "serializeNode (ProcessingInstruction t s) = ''<?'' @ t @ '' '' @ s @ ''?>''"

definition innerHTML :: "node \<Rightarrow> string" where
  "innerHTML el = concat (map serializeNode (childNodes el))"

section \<open>The markup parser of the platform\<close>

text \<open>
  A model of \<open>DOMParser.parseFromString(text, 'text/xml')\<close> for documents made of
  elements, attributes, character data with the predefined and the numeric character
  references, comments, CDATA sections and processing instructions. Namespace
  declarations are ordinary attributes and are not checked.
\<close>

definition isXmlSpace :: "char \<Rightarrow> bool" where
  "isXmlSpace c = (c = CHR 0x20 \<or> c = CHR 0x09 \<or> c = CHR 0x0A \<or> c = CHR 0x0D)"

definition isXmlChar :: "char \<Rightarrow> bool" where
  "isXmlChar c = (32 \<le> (of_char c :: nat) \<or> c = CHR 0x09 \<or> c = CHR 0x0A \<or> c = CHR 0x0D)"

definition isNameStartChar :: "char \<Rightarrow> bool" where
  "isNameStartChar c =
     (let n = (of_char c :: nat)
      in (65 \<le> n \<and> n \<le> 90) \<or> (97 \<le> n \<and> n \<le> 122) \<or> c = CHR '':'' \<or> c = CHR ''_''
         \<or> (192 \<le> n \<and> n \<le> 214) \<or> (216 \<le> n \<and> n \<le> 246) \<or> 248 \<le> n)"

definition isNameChar :: "char \<Rightarrow> bool" where
  "isNameChar c =
     (isNameStartChar c \<or> c = CHR ''-'' \<or> c = CHR ''.'' \<or> isDigit c \<or> c = CHR 0xB7)"

fun normalizeLineEnds :: "string \<Rightarrow> string" where
  "normalizeLineEnds [] = []"
| "normalizeLineEnds [c] = (if c = CHR 0x0D then [CHR 0x0A] else [c])"
| "normalizeLineEnds (c # d # cs) =
     (if c = CHR 0x0D \<and> d = CHR 0x0A then CHR 0x0A # normalizeLineEnds cs
      else if c = CHR 0x0D then CHR 0x0A # normalizeLineEnds (d # cs)
      else c # normalizeLineEnds (d # cs))"

fun breakOn :: "string \<Rightarrow> string \<Rightarrow> (string \<times> string) option" where
  "breakOn d [] = (if d = [] then Some ([], []) else None)"
| "breakOn d (c # cs) =
     (if take (length d) (c # cs) = d then Some ([], drop (length d) (c # cs))
      else map_option (\<lambda>(a, b). (c # a, b)) (breakOn d cs))"

definition hexDigitValue :: "char \<Rightarrow> nat option" where
  "hexDigitValue c =
     (let n = (of_char c :: nat)
      in if 48 \<le> n \<and> n \<le> 57 then Some (n - 48)
         else if 65 \<le> n \<and> n \<le> 70 then Some (n - 55)
         else if 97 \<le> n \<and> n \<le> 102 then Some (n - 87)
         else None)"

fun numberOf :: "nat \<Rightarrow> nat \<Rightarrow> string \<Rightarrow> nat option" where
  "numberOf base acc [] = Some acc"
| "numberOf base acc (c # cs) =
     (case hexDigitValue c of
        None \<Rightarrow> None
      | Some v \<Rightarrow> if v < base then numberOf base (base * acc + v) cs else None)"

definition charOfCode :: "nat \<Rightarrow> char option" where
  "charOfCode n = (if n < 256 \<and> isXmlChar (char_of n) then Some (char_of n) else None)"

definition resolveReference :: "string \<Rightarrow> char option" where
  "resolveReference r =
     (if r = ''lt'' then Some CHR ''<''
      else if r = ''gt'' then Some CHR ''>''
      else if r = ''amp'' then Some CHR ''&''
      else if r = ''quot'' then Some CHR 0x22
      else if r = ''apos'' then Some CHR 0x27
      else if take 2 r = ''#x'' \<and> drop 2 r \<noteq> []
      then (case numberOf 16 0 (drop 2 r) of None \<Rightarrow> None | Some n \<Rightarrow> charOfCode n)
      else if take 1 r = ''#'' \<and> drop 1 r \<noteq> []
      then (case numberOf 10 0 (drop 1 r) of None \<Rightarrow> None | Some n \<Rightarrow> charOfCode n)
      else None)"

fun decodeRefs :: "(char \<Rightarrow> char) \<Rightarrow> string option \<Rightarrow> string \<Rightarrow> string option" where
  "decodeRefs f None [] = Some []"
| "decodeRefs f (Some r) [] = None"
| "decodeRefs f None (c # cs) =
     (if c = CHR ''&'' then decodeRefs f (Some []) cs
      else map_option (\<lambda>t. f c # t) (decodeRefs f None cs))"
| "decodeRefs f (Some r) (c # cs) =
     (if c = CHR '';''
      then (case resolveReference r of
              None \<Rightarrow> None
            | Some ch \<Rightarrow> map_option (\<lambda>t. ch # t) (decodeRefs f None cs))
      else decodeRefs f (Some (r @ [c])) cs)"

definition normalizeAttrChar :: "char \<Rightarrow> char" where
  "normalizeAttrChar c = (if c = CHR 0x09 \<or> c = CHR 0x0A \<or> c = CHR 0x0D then CHR 0x20 else c)"

lemma length_dropWhile_tl_le: "length (dropWhile P (tl xs)) \<le> length xs"
  by (rule order_trans[OF length_dropWhile_le]) simp

text \<open>One attribute: a name, \<open>=\<close>, and a quoted value in which references are resolved
  and literal TAB, LF and CR become spaces.\<close>

definition parseAttribute :: "string \<Rightarrow> ((string \<times> string) \<times> string) option" where
  "parseAttribute s =
     (let name = takeWhile isNameChar s;
          s1 = dropWhile isXmlSpace (dropWhile isNameChar s)
      in if name = [] \<or> \<not> isNameStartChar (hd name) then None
         else if s1 = [] \<or> hd s1 \<noteq> CHR ''='' then None
         else
           (let s2 = dropWhile isXmlSpace (tl s1)
            in if s2 = [] \<or> (hd s2 \<noteq> CHR 0x22 \<and> hd s2 \<noteq> CHR 0x27) then None
               else
                 (let raw = takeWhile (\<lambda>c. c \<noteq> hd s2) (tl s2);
                      s3 = dropWhile (\<lambda>c. c \<noteq> hd s2) (tl s2)
                  in if s3 = [] \<or> CHR ''<'' \<in> set raw then None
                     else (case decodeRefs normalizeAttrChar None raw of
                             None \<Rightarrow> None
                           | Some v \<Rightarrow> Some ((name, v), tl s3)))))"

lemma parseAttribute_shorter:
  assumes "parseAttribute s = Some (a, rest)"
  shows "length rest < length s"
proof -
  define s1 where "s1 = dropWhile isXmlSpace (dropWhile isNameChar s)"
  define s2 where "s2 = dropWhile isXmlSpace (tl s1)"
  define s3 where "s3 = dropWhile (\<lambda>c. c \<noteq> hd s2) (tl s2)"
  from assms have r: "rest = tl s3" and ne: "s3 \<noteq> []"
    by (auto simp: parseAttribute_def Let_def s1_def s2_def s3_def split: if_splits option.splits)
  have "length s1 \<le> length s"
    unfolding s1_def by (rule order_trans[OF length_dropWhile_le length_dropWhile_le])
  moreover have "length s2 \<le> length s1" unfolding s2_def by (rule length_dropWhile_tl_le)
  moreover have "length s3 \<le> length s2" unfolding s3_def by (rule length_dropWhile_tl_le)
  moreover have "length (tl s3) < length s3" using ne by (cases s3) auto
  ultimately show ?thesis unfolding r by linarith
qed

function parseAttributes ::
  "(string \<times> string) list \<Rightarrow> string \<Rightarrow> ((string \<times> string) list \<times> bool \<times> string) option" where
  "parseAttributes as input =
     (let s = dropWhile isXmlSpace input
      in if s = [] then None
         else if hd s = CHR ''>'' then Some (as, False, tl s)
         else if hd s = CHR ''/''
         then (if tl s \<noteq> [] \<and> hd (tl s) = CHR ''>'' then Some (as, True, tl (tl s)) else None)
         else if \<not> isXmlSpace (hd input) then None
         else (case parseAttribute s of
                 None \<Rightarrow> None
               | Some (a, rest) \<Rightarrow>
                   if fst a \<in> set (map fst as) then None
                   else parseAttributes (as @ [a]) rest))"
  by pat_completeness auto
termination
proof (relation "measure (\<lambda>(as, input). length input)", goal_cases)
  case 1
  show ?case by simp
next
  case (2 as input s x a rest)
  then have "parseAttribute s = Some (a, rest)" by simp
  then have "length rest < length s" by (rule parseAttribute_shorter)
  moreover from 2 have "length s \<le> length input" by (simp add: length_dropWhile_le)
  ultimately show ?case by simp
qed

declare parseAttributes.simps [simp del]

lemma parseAttributes_shorter:
  "parseAttributes as input = Some (bs, sc, rest) \<Longrightarrow> length rest < length input"
proof (induction as input rule: parseAttributes.induct)
  case (1 as input)
  define s where "s = dropWhile isXmlSpace input"
  have le: "length s \<le> length input" by (simp add: s_def length_dropWhile_le)
  have tl1: "length (tl s) < length input" if "s \<noteq> []"
    using that le by (cases s) auto
  have tl2: "length (tl (tl s)) < length input" if "s \<noteq> []"
    using tl1[OF that] by (cases "tl s") auto
  show ?case
  proof (cases "s = [] \<or> hd s = CHR ''>'' \<or> hd s = CHR ''/'' \<or> \<not> isXmlSpace (hd input)")
    case True
    from "1.prems" have "s \<noteq> [] \<and> (rest = tl s \<or> rest = tl (tl s))"
      using True
      by (subst (asm) parseAttributes.simps)
         (auto simp: s_def[symmetric] Let_def split: if_splits)
    with tl1 tl2 show ?thesis by blast
  next
    case False
    with "1.prems" obtain a r where pa: "parseAttribute s = Some (a, r)"
        and nd: "fst a \<notin> set (map fst as)"
        and rec: "parseAttributes (as @ [a]) r = Some (bs, sc, rest)"
      by (subst (asm) parseAttributes.simps)
         (auto simp: s_def[symmetric] Let_def split: if_splits option.splits)
    have "length rest < length r"
      using "1.IH"[OF s_def _ _ _ _ pa _ _ rec] False nd by auto
    with parseAttribute_shorter[OF pa] le show ?thesis by simp
  qed
qed

lemma breakOn_decompose: "breakOn d s = Some (a, b) \<Longrightarrow> s = a @ d @ b"
proof (induction s arbitrary: a b)
  case Nil
  then show ?case by (simp split: if_splits)
next
  case (Cons c cs)
  show ?case
  proof (cases "take (length d) (c # cs) = d")
    case True
    with Cons.prems have "a = []" "b = drop (length d) (c # cs)" by auto
    with True show ?thesis by (metis append_Nil append_take_drop_id)
  next
    case False
    with Cons.prems obtain a' where "breakOn d cs = Some (a', b)" "a = c # a'"
      by (auto split: prod.splits)
    with Cons.IH show ?thesis by simp
  qed
qed

text \<open>
  The markup items of the text: character data up to the next \<open><\<close> (raw and with its
  references resolved), a comment, a CDATA section, a processing instruction, a start
  tag (with its attributes; the flag says that it is an empty-element tag), an end tag.
\<close>

datatype token =
    TText string string
  | TComment string
  | TCData string
  | TPI string string
  | TStart string "(string \<times> string) list" bool
  | TEnd string

definition nextToken :: "string \<Rightarrow> (token \<times> string) option" where
  "nextToken input =
     (if input = [] then None
      else if hd input \<noteq> CHR ''<'' then
        (let raw = takeWhile (\<lambda>c. c \<noteq> CHR ''<'') input
         in if breakOn '']]>'' raw \<noteq> None then None
            else (case decodeRefs id None raw of
                    None \<Rightarrow> None
                  | Some t \<Rightarrow> Some (TText raw t, dropWhile (\<lambda>c. c \<noteq> CHR ''<'') input)))
      else if take 4 input = ''<!--'' then
        (case breakOn ''--'' (drop 4 input) of
           None \<Rightarrow> None
         | Some (c, after) \<Rightarrow>
             if after \<noteq> [] \<and> hd after = CHR ''>'' then Some (TComment c, tl after) else None)
      else if take 9 input = ''<![CDATA['' then
        (case breakOn '']]>'' (drop 9 input) of
           None \<Rightarrow> None
         | Some (d, after) \<Rightarrow> Some (TCData d, after))
      else if take 2 input = ''<?'' then
        (let target = takeWhile isNameChar (drop 2 input);
             r1 = dropWhile isNameChar (drop 2 input)
         in if target = [] \<or> \<not> isNameStartChar (hd target) \<or> toLowerCase target = ''xml''
            then None
            else (case breakOn ''?>'' r1 of
                    None \<Rightarrow> None
                  | Some (d, after) \<Rightarrow>
                      if d \<noteq> [] \<and> \<not> isXmlSpace (hd d) then None
                      else Some (TPI target (dropWhile isXmlSpace d), after)))
      else if take 2 input = ''</'' then
        (let name = takeWhile isNameChar (drop 2 input);
             r1 = dropWhile isXmlSpace (dropWhile isNameChar (drop 2 input))
         in if name \<noteq> [] \<and> isNameStartChar (hd name) \<and> r1 \<noteq> [] \<and> hd r1 = CHR ''>''
            then Some (TEnd name, tl r1) else None)
      else
        (let name = takeWhile isNameChar (tl input)
         in if name = [] \<or> \<not> isNameStartChar (hd name) then None
            else (case parseAttributes [] (dropWhile isNameChar (tl input)) of
                    None \<Rightarrow> None
                  | Some (as, selfClosing, rest) \<Rightarrow> Some (TStart name as selfClosing, rest))))"

lemma nextToken_shorter:
  assumes "nextToken input = Some (tok, rest)"
  shows "length rest < length input"
proof -
  from assms have ne: "input \<noteq> []" by (auto simp: nextToken_def)
  then obtain c cs where input: "input = c # cs" by (cases input) auto
  consider (chardata) "hd input \<noteq> CHR ''<''"
    | (comment) "hd input = CHR ''<''" "take 4 input = ''<!--''"
    | (cdata) "hd input = CHR ''<''" "take 4 input \<noteq> ''<!--''" "take 9 input = ''<![CDATA[''"
    | (procinst) "hd input = CHR ''<''" "take 4 input \<noteq> ''<!--''" "take 9 input \<noteq> ''<![CDATA[''"
         "take 2 input = ''<?''"
    | (endtag) "hd input = CHR ''<''" "take 4 input \<noteq> ''<!--''" "take 9 input \<noteq> ''<![CDATA[''"
         "take 2 input \<noteq> ''<?''" "take 2 input = ''</''"
    | (starttag) "hd input = CHR ''<''" "take 4 input \<noteq> ''<!--''" "take 9 input \<noteq> ''<![CDATA[''"
         "take 2 input \<noteq> ''<?''" "take 2 input \<noteq> ''</''"
    by blast
  then show ?thesis
  proof cases
    case chardata
    with assms ne have "rest = dropWhile (\<lambda>c. c \<noteq> CHR ''<'') input"
      by (auto simp: nextToken_def Let_def split: if_splits option.splits)
    with chardata input show ?thesis
      by (simp add: less_Suc_eq_le length_dropWhile_le)
  next
    case comment
    with assms ne obtain x after where b: "breakOn ''--'' (drop 4 input) = Some (x, after)"
        and r: "rest = tl after"
      by (auto simp: nextToken_def split: if_splits option.splits)
    from breakOn_decompose[OF b] have "length (drop 4 input) = length x + 2 + length after"
      by simp
    then show ?thesis using r by simp
  next
    case cdata
    with assms ne obtain x where b: "breakOn '']]>'' (drop 9 input) = Some (x, rest)"
      by (auto simp: nextToken_def split: if_splits option.splits)
    from breakOn_decompose[OF b] have "length (drop 9 input) = length x + 3 + length rest"
      by simp
    then show ?thesis by simp
  next
    case procinst
    with assms ne obtain x where
      b: "breakOn ''?>'' (dropWhile isNameChar (drop 2 input)) = Some (x, rest)"
      by (auto simp: nextToken_def Let_def split: if_splits option.splits)
    from breakOn_decompose[OF b]
    have "length (dropWhile isNameChar (drop 2 input)) = length x + 2 + length rest"
      by simp
    moreover have "length (dropWhile isNameChar (drop 2 input)) \<le> length (drop 2 input)"
      by (rule length_dropWhile_le)
    ultimately show ?thesis by simp
  next
    case endtag
    with assms ne have r: "rest = tl (dropWhile isXmlSpace (dropWhile isNameChar (drop 2 input)))"
      by (auto simp: nextToken_def Let_def split: if_splits option.splits)
    have "length (dropWhile isXmlSpace (dropWhile isNameChar (drop 2 input))) \<le> length (drop 2 input)"
      by (rule order_trans[OF length_dropWhile_le length_dropWhile_le])
    then show ?thesis using r endtag(5) by (cases input) auto
  next
    case starttag
    with assms ne obtain as sc where
      "parseAttributes [] (dropWhile isNameChar (tl input)) = Some (as, sc, rest)"
      by (auto simp: nextToken_def Let_def split: if_splits option.splits)
    from parseAttributes_shorter[OF this]
    have "length rest < length (dropWhile isNameChar (tl input))" .
    also have "\<dots> \<le> length (tl input)" by (rule length_dropWhile_le)
    finally show ?thesis by simp
  qed
qed

text \<open>
  The tree builder. \<open>stack\<close> holds the open elements, innermost first, each with its
  name, its attributes and the nodes that precede it in its parent; \<open>acc\<close> holds the
  child nodes of the innermost open element read so far (or the top-level nodes when
  no element is open). Outside the root element only white space, comments and
  processing instructions are allowed, and there is one root element.
\<close>

type_synonym frame = "string \<times> (string \<times> string) list \<times> node list"

function parseNodes :: "frame list \<Rightarrow> node list \<Rightarrow> string \<Rightarrow> string + node list" where
  "parseNodes stack acc input =
     (if input = [] then (if stack = [] then Inr acc else Inl ''unclosed element'')
      else
        (case nextToken input of
           None \<Rightarrow> Inl ''not well-formed''
         | Some (tok, rest) \<Rightarrow>
             (case tok of
                TText raw t \<Rightarrow>
                  if stack = []
                  then (if list_all isXmlSpace raw then parseNodes stack acc rest
                        else Inl ''text outside the root element'')
                  else parseNodes stack (acc @ [Text t]) rest
              | TComment c \<Rightarrow> parseNodes stack (acc @ [Comment c]) rest
              | TCData d \<Rightarrow>
                  if stack = [] then Inl ''CDATA section outside the root element''
                  else parseNodes stack (acc @ [CDATASection d]) rest
              | TPI t d \<Rightarrow> parseNodes stack (acc @ [ProcessingInstruction t d]) rest
              | TStart name as selfClosing \<Rightarrow>
                  if stack = [] \<and> list_ex isElement acc then Inl ''more than one root element''
                  else if selfClosing then parseNodes stack (acc @ [Element name as []]) rest
                  else parseNodes ((name, as, acc) # stack) [] rest
              | TEnd name \<Rightarrow>
                  (case stack of
                     [] \<Rightarrow> Inl ''unexpected end tag''
                   | (tag, as, before) # stack' \<Rightarrow>
                       if name = tag then parseNodes stack' (before @ [Element tag as acc]) rest
                       else Inl ''mismatched end tag''))))"
  by pat_completeness auto
termination
  by (relation "measure (\<lambda>(stack, acc, input). length input)")
     (auto simp: nextToken_shorter)

declare parseNodes.simps [simp del]

text \<open>
  \<open>new DOMParser().parseFromString(xml, 'text/xml')\<close>. Line ends are normalized first
  and an XML declaration at the very start is skipped. Text that is not well-formed
  gives a document whose root is a \<open>parsererror\<close> element holding the diagnostic.
  Document type declarations are not covered: the model reports them as errors.
\<close>

definition errorDocument :: "string \<Rightarrow> document" where
  "errorDocument msg = Document [Element ''parsererror'' [] [Text msg]]"

definition skipXmlDeclaration :: "string \<Rightarrow> string option" where
  "skipXmlDeclaration s =
     (if take 5 s = ''<?xml'' \<and> drop 5 s \<noteq> [] \<and> isXmlSpace (hd (drop 5 s))
      then map_option snd (breakOn ''?>'' (drop 5 s))
      else Some s)"

definition parseFromString :: "string \<Rightarrow> document" where
  "parseFromString xml =
     (if \<not> list_all isXmlChar xml then errorDocument ''invalid character''
      else
        (case skipXmlDeclaration (normalizeLineEnds xml) of
           None \<Rightarrow> errorDocument ''unterminated XML declaration''
         | Some s \<Rightarrow>
             (case parseNodes [] [] s of
                Inl msg \<Rightarrow> errorDocument msg
              | Inr ns \<Rightarrow>
                  if list_ex isElement ns then Document ns
                  else errorDocument ''no root element'')))"

section \<open>The data model (types/problem.ts)\<close>

record problemMetadata =
  displayName :: string
  maxAttempts :: "jsnumber option"
  markdown :: "string option"

record choice =
  choiceText :: string
  correct :: bool

datatype question =
    MultipleChoice (label: string) (choices: "choice list") (shuffle: bool)
  | Numerical (label: string) (answer: string) (tolerance: string)
  | StringQuestion (label: string) (answer: string)

record solution =
  explanation :: string
  htmlContent :: string

datatype problemBlock =
    QuestionBlock question "solution option"
  | HtmlBlock string

record parsedProblem =
  metadata :: problemMetadata
  introHtml :: string
  blocks :: "problemBlock list"

datatype error = Error string | RangeError | TypeError

section \<open>The parser (utils/problemParser.ts)\<close>

definition parseMetadata :: "node \<Rightarrow> problemMetadata" where
  "parseMetadata problemEl =
     \<lparr> displayName =
         (case getAttribute problemEl ''display_name'' of
            None \<Rightarrow> ''Untitled Problem''
          | Some v \<Rightarrow> if v = [] then ''Untitled Problem'' else v),
       maxAttempts =
         (case getAttribute problemEl ''max_attempts'' of
            None \<Rightarrow> None
          | Some v \<Rightarrow> if v = [] then None else Some (parseInt10 v)),
       markdown = getAttribute problemEl ''markdown'' \<rparr>"

text \<open>\<open>el.querySelector('label')?.textContent?.trim() || ''\<close>\<close>

definition labelOf :: "node \<Rightarrow> string" where
  "labelOf el =
     (case querySelector (matchesType ''label'') el of
        None \<Rightarrow> []
      | Some l \<Rightarrow> trim (textContent l))"

definition parseMultipleChoice :: "node \<Rightarrow> question" where
  "parseMultipleChoice el =
     MultipleChoice
       (labelOf el)
       (map (\<lambda>choiceEl. \<lparr> choiceText = trim (textContent choiceEl),
                           correct = (getAttribute choiceEl ''correct'' = Some ''true'') \<rparr>)
            (querySelectorAll (matchesType ''choice'') el))
       (case querySelector (matchesType ''choicegroup'') el of
          None \<Rightarrow> False
        | Some g \<Rightarrow> getAttribute g ''shuffle'' = Some ''true'')"

text \<open>
  The \<open>forEach\<close> over the paragraphs of \<open>parseSolution\<close>, with its index and the array
  \<open>texts\<close> it pushes to.
\<close>

fun collectTexts :: "nat \<Rightarrow> node list \<Rightarrow> string list \<Rightarrow> string list" where
  "collectTexts index [] texts = texts"
| "collectTexts index (p # ps) texts =
     (if index = 0 \<and> trim (textContent p) = ''Explanation''
      then collectTexts (index + 1) ps texts
      else collectTexts (index + 1) ps (texts @ [trim (textContent p)]))"

definition parseSolution :: "node \<Rightarrow> solution" where
  "parseSolution el =
     (case querySelector (matchesClass ''detailed-solution'') el of
        Some detailedSolution \<Rightarrow>
          \<lparr> explanation =
              join [CHR 0x0A] (collectTexts 0 (querySelectorAll (matchesType ''p'') detailedSolution) []),
            htmlContent = innerHTML detailedSolution \<rparr>
      | None \<Rightarrow>
          \<lparr> explanation = trim (textContent el), htmlContent = innerHTML el \<rparr>)"

definition parseHtmlBlock :: "node \<Rightarrow> problemBlock" where
  "parseHtmlBlock el = HtmlBlock (innerHTML el)"

definition lowerTag :: "node \<Rightarrow> string" where
  "lowerTag el = toLowerCase (tagName el)"

text \<open>
  The three question branches of the loop build their question from the child; the
  numerical and the string branch read the label and the \<open>answer\<close> attribute
  (\<open>getAttribute('answer') || ''\<close>).
\<close>

definition answerOf :: "node \<Rightarrow> string" where
  "answerOf el = (case getAttribute el ''answer'' of None \<Rightarrow> [] | Some v \<Rightarrow> v)"

definition isQuestionTag :: "string \<Rightarrow> bool" where
  "isQuestionTag t =
     (t = ''multiplechoiceresponse'' \<or> t = ''numericalresponse'' \<or> t = ''stringresponse'')"

definition parseQuestion :: "node \<Rightarrow> question" where
  "parseQuestion child =
     (if lowerTag child = ''multiplechoiceresponse'' then parseMultipleChoice child
      else if lowerTag child = ''numericalresponse''
      then Numerical (labelOf child) (answerOf child) []
      else StringQuestion (labelOf child) (answerOf child))"

text \<open>
  The loop of \<open>parseProblem\<close> over \<open>children\<close>. The first argument is the part of the
  array from index \<open>i\<close> on, so \<open>children[i]\<close> is its head and \<open>children[i + 1]\<close>, when
  \<open>i + 1 < children.length\<close>, the head of the rest; \<open>i++\<close> inside a question branch
  drops that element as well. The other arguments are \<open>foundFirstQuestion\<close>,
  \<open>introHtml\<close> and \<open>blocks\<close>.
\<close>

fun processChildren ::
  "node list \<Rightarrow> bool \<Rightarrow> string \<Rightarrow> problemBlock list \<Rightarrow> bool \<times> string \<times> problemBlock list" where
  "processChildren [] foundFirstQuestion intro bs = (foundFirstQuestion, intro, bs)"
| "processChildren (child # rest) foundFirstQuestion intro bs =
     (if lowerTag child = ''html'' then
        (if \<not> foundFirstQuestion
         then processChildren rest foundFirstQuestion (intro @ innerHTML child) bs
         else processChildren rest foundFirstQuestion intro (bs @ [parseHtmlBlock child]))
      else if isQuestionTag (lowerTag child) then
        (if rest \<noteq> [] \<and> lowerTag (hd rest) = ''solution''
         then processChildren (tl rest) True intro
                (bs @ [QuestionBlock (parseQuestion child) (Some (parseSolution (hd rest)))])
         else processChildren rest True intro
                (bs @ [QuestionBlock (parseQuestion child) None]))
      else processChildren rest foundFirstQuestion intro bs)"

text \<open>
  \<open>parseProblem\<close> after the platform has parsed the text: \<open>doc\<close> is the document that
  \<open>parseFromString\<close> returned. A document that holds a \<open>parsererror\<close> element is how the
  platform reports text that is not well-formed.
\<close>

definition parseProblemDoc :: "document \<Rightarrow> error + parsedProblem" where
  "parseProblemDoc doc =
     (case docQuerySelector (matchesType ''parsererror'') doc of
        Some parseError \<Rightarrow> Inl (Error (''XML Parse Error: '' @ textContent parseError))
      | None \<Rightarrow>
          (case docQuerySelector (matchesType ''problem'') doc of
             None \<Rightarrow> Inl (Error ''No <problem> element found'')
           | Some problemEl \<Rightarrow>
               (case processChildren (children problemEl) False [] [] of
                  (found, intro, bs) \<Rightarrow>
                    Inr \<lparr> metadata = parseMetadata problemEl, introHtml = intro, blocks = bs \<rparr>)))"

section \<open>The validator (utils/problemParser.ts)\<close>

datatype severity = error | warning

record validationError =
  severity :: severity
  message :: string
  questionIndex :: "nat option"

text \<open>
  The loop of \<open>validateProblem\<close> over \<open>parsed.blocks\<close>, with the counter
  \<open>questionIndex\<close> and the array \<open>errors\<close> it pushes to.
\<close>

definition noCorrectAnswer :: "nat \<Rightarrow> validationError" where
  "noCorrectAnswer n =
     \<lparr> severity = error,
       message = ''Question '' @ showNat n @ '' has no correct answer'',
       questionIndex = Some n \<rparr>"

definition emptyChoices :: "nat \<Rightarrow> validationError" where
  "emptyChoices n =
     \<lparr> severity = warning,
       message = ''Question '' @ showNat n @ '' has empty choice(s)'',
       questionIndex = Some n \<rparr>"

definition missingExplanation :: "nat \<Rightarrow> validationError" where
  "missingExplanation n =
     \<lparr> severity = warning,
       message = ''Question '' @ showNat n @ '' is missing an explanation'',
       questionIndex = Some n \<rparr>"

fun checkQuestion :: "nat \<Rightarrow> question \<Rightarrow> validationError list" where
  "checkQuestion n (MultipleChoice l cs sh) =
     (if \<not> list_ex correct cs then [noCorrectAnswer n] else [])
     @ (if length (filter (\<lambda>c. trim (choiceText c) = []) cs) > 0 then [emptyChoices n] else [])"
| "checkQuestion n q = []"

definition lacksExplanation :: "solution option \<Rightarrow> bool" where
  "lacksExplanation sol =
     (case sol of
        None \<Rightarrow> True
      | Some s \<Rightarrow> trim (explanation s) = [] \<or> explanation s = ''Add your explanation here'')"

fun validateBlocks :: "problemBlock list \<Rightarrow> nat \<Rightarrow> validationError list \<Rightarrow> validationError list" where
  "validateBlocks [] n errors = errors"
| "validateBlocks (HtmlBlock c # rest) n errors = validateBlocks rest n errors"
| "validateBlocks (QuestionBlock q sol # rest) n errors =
     validateBlocks rest (n + 1)
       (errors @ checkQuestion (n + 1) q
          @ (if lacksExplanation sol then [missingExplanation (n + 1)] else []))"

definition validateProblem :: "parsedProblem \<Rightarrow> validationError list" where
  "validateProblem parsed = validateBlocks (blocks parsed) 0 []"

fun isQuestionBlock :: "problemBlock \<Rightarrow> bool" where
  "isQuestionBlock (QuestionBlock q sol) = True"
| "isQuestionBlock (HtmlBlock c) = False"

definition countQuestions :: "parsedProblem \<Rightarrow> nat" where
  "countQuestions parsed = length (filter isQuestionBlock (blocks parsed))"

section \<open>The formatter (utils/problemParser.ts)\<close>

definition inlineElements :: "string list" where
  "inlineElements = [''choice'', ''label'', ''p'', ''span'', ''a'', ''strong'', ''em'', ''code'']"

text \<open>The loop \<open>attrs += ` ${attr.name}="${attr.value}"`\<close>.\<close>

definition attrsString :: "(string \<times> string) list \<Rightarrow> string" where
  "attrsString as = concat (map (\<lambda>(n, v). '' '' @ n @ ''='' @ [CHR 0x22] @ v @ [CHR 0x22]) as)"

fun formatNode :: "string \<Rightarrow> node \<Rightarrow> nat \<Rightarrow> string" where
  "formatNode PADDING (Text s) indent = trim s"
| "formatNode PADDING (Comment s) indent = repeat PADDING indent @ ''<!--'' @ s @ ''-->''"
| "formatNode PADDING (CDATASection s) indent = []"
| "formatNode PADDING (ProcessingInstruction t s) indent = []"
| "formatNode PADDING (Element tag as cs) indent =
     (let attrs = attrsString as;
          hasOnlyText = (length cs = 1 \<and> isText (cs ! 0));
          hasNoChildren = (length cs = 0);
          isInline = (toLowerCase tag \<in> set inlineElements \<or> hasOnlyText)
      in if hasNoChildren
         then repeat PADDING indent @ ''<'' @ tag @ attrs @ ''></'' @ tag @ ''>''
         else if isInline \<and> hasOnlyText
         then repeat PADDING indent @ ''<'' @ tag @ attrs @ ''>''
              @ trim (textContent (Element tag as cs)) @ ''</'' @ tag @ ''>''
         else
           (let childContent =
                  concat (map (\<lambda>child.
                     (let formatted = formatNode PADDING child (indent + 1)
                      in if formatted \<noteq> [] then [CHR 0x0A] @ formatted else [])) cs);
                hasElementChildren = list_ex isElement cs
            in if hasElementChildren
               then repeat PADDING indent @ ''<'' @ tag @ attrs @ ''>'' @ childContent
                    @ [CHR 0x0A] @ repeat PADDING indent @ ''</'' @ tag @ ''>''
               else repeat PADDING indent @ ''<'' @ tag @ attrs @ ''>''
                    @ trim (textContent (Element tag as cs)) @ ''</'' @ tag @ ''>''))"

text \<open>\<open>doc.documentElement\<close>: the element among the top-level nodes, or null.\<close>

fun documentElement :: "document \<Rightarrow> node option" where
  "documentElement (Document ns) = find isElement ns"

text \<open>
  \<open>formatXmlPreserveInline\<close> after the platform has parsed the text. \<open>' '.repeat\<close>
  runs first and raises a RangeError on a negative count; reading \<open>nodeType\<close> of a
  null \<open>documentElement\<close> would raise a TypeError.
\<close>

definition formatXmlDoc :: "string \<Rightarrow> int \<Rightarrow> document \<Rightarrow> error + string" where
  "formatXmlDoc xml indentSize doc =
     (if indentSize < 0 then Inl RangeError
      else
        (let PADDING = repeat '' '' (nat indentSize)
         in case docQuerySelector (matchesType ''parsererror'') doc of
              Some parseError \<Rightarrow> Inr xml
            | None \<Rightarrow>
                (case documentElement doc of
                   None \<Rightarrow> Inl TypeError
                 | Some root \<Rightarrow> Inr (formatNode PADDING root 0))))"

text \<open>
  The two entry points, which first hand the text to the platform parser.
\<close>

definition parseProblem :: "string \<Rightarrow> error + parsedProblem" where
  "parseProblem xmlString = parseProblemDoc (parseFromString xmlString)"

definition formatXmlPreserveInline :: "string \<Rightarrow> int \<Rightarrow> error + string" where
  "formatXmlPreserveInline xml indentSize = formatXmlDoc xml indentSize (parseFromString xml)"

section \<open>Properties of the parser\<close>

text \<open>
  What the loop of \<open>parseProblem\<close> returns for a list of children when started with
  empty accumulators: the blocks, the intro markup and the final flag.
\<close>

definition blocksOf :: "bool \<Rightarrow> node list \<Rightarrow> problemBlock list" where
  "blocksOf found cs = snd (snd (processChildren cs found [] []))"

definition introOf :: "bool \<Rightarrow> node list \<Rightarrow> string" where
  "introOf found cs = fst (snd (processChildren cs found [] []))"

definition foundAfter :: "bool \<Rightarrow> node list \<Rightarrow> bool" where
  "foundAfter found cs = fst (processChildren cs found [] [])"

lemma processChildren_acc:
  "processChildren cs f (i0 @ i) (b0 @ b) =
     (case processChildren cs f i b of (f', i', b') \<Rightarrow> (f', i0 @ i', b0 @ b'))"
proof (induction cs f i b arbitrary: i0 b0 rule: processChildren.induct)
  case (1 f i b)
  show ?case by simp
next
  case (2 child rest f i b)
  show ?case
    using "2"[of i0 b0] by (simp del: append_assoc add: append_assoc[symmetric])
qed

lemma processChildren_split:
  "processChildren cs f i b = (foundAfter f cs, i @ introOf f cs, b @ blocksOf f cs)"
  using processChildren_acc[of cs f i "[]" b "[]"]
  by (simp add: foundAfter_def introOf_def blocksOf_def split: prod.splits)

lemma isQuestionTag_not_solution: "isQuestionTag t \<Longrightarrow> t \<noteq> ''solution''"
  by (auto simp: isQuestionTag_def)

lemma isQuestionTag_not_html: "isQuestionTag t \<Longrightarrow> t \<noteq> ''html''"
  by (auto simp: isQuestionTag_def)

lemma processChildren_append:
  "pre = [] \<or> rest = [] \<or> \<not> isQuestionTag (lowerTag (last pre)) \<or> lowerTag (hd rest) \<noteq> ''solution''
   \<Longrightarrow> processChildren (pre @ rest) f i b =
       (case processChildren pre f i b of (f', i', b') \<Rightarrow> processChildren rest f' i' b')"
proof (induction pre f i b rule: processChildren.induct)
  case (1 f i b)
  show ?case by simp
next
  case (2 child pre f i b)
  show ?case
  proof (cases "pre = []")
    case True
    with "2.prems" show ?thesis
      by (cases rest) (auto simp: isQuestionTag_not_solution)
  next
    case False
    then have l: "last (child # pre) = last pre" by simp
    have nt: "pre \<noteq> [] \<Longrightarrow> tl pre \<noteq> [] \<Longrightarrow> last (tl pre) = last pre"
      by (cases pre) auto
    have hdapp: "hd (pre @ rest) = hd pre" "tl (pre @ rest) = tl pre @ rest" using False by auto
    from "2.prems" False l
    have c: "pre = [] \<or> rest = [] \<or> \<not> isQuestionTag (lowerTag (last pre)) \<or> lowerTag (hd rest) \<noteq> ''solution''"
      by auto
    have c': "tl pre = [] \<or> rest = [] \<or> \<not> isQuestionTag (lowerTag (last (tl pre))) \<or> lowerTag (hd rest) \<noteq> ''solution''"
      using c nt False by auto
    show ?thesis
      using "2.IH"(1)[OF _ _ c] "2.IH"(2)[OF _ _ c] "2.IH"(3)[OF _ _ _ c'] "2.IH"(4)[OF _ _ _ c] "2.IH"(5)[OF _ _ c] False hdapp
      by simp
  qed
qed

lemma blocksOf_append:
  assumes "pre = [] \<or> rest = [] \<or> \<not> isQuestionTag (lowerTag (last pre)) \<or> lowerTag (hd rest) \<noteq> ''solution''"
  shows "blocksOf f (pre @ rest) = blocksOf f pre @ blocksOf (foundAfter f pre) rest"
    and "introOf f (pre @ rest) = introOf f pre @ introOf (foundAfter f pre) rest"
    and "foundAfter f (pre @ rest) = foundAfter (foundAfter f pre) rest"
proof -
  have "processChildren (pre @ rest) f [] [] =
        processChildren rest (foundAfter f pre) (introOf f pre) (blocksOf f pre)"
    using processChildren_append[OF assms, of f "[]" "[]"]
    by (simp add: processChildren_split[of pre])
  also have "\<dots> = (foundAfter (foundAfter f pre) rest, introOf f pre @ introOf (foundAfter f pre) rest,
                    blocksOf f pre @ blocksOf (foundAfter f pre) rest)"
    by (rule processChildren_split)
  finally have e: "processChildren (pre @ rest) f [] [] =
     (foundAfter (foundAfter f pre) rest, introOf f pre @ introOf (foundAfter f pre) rest,
                    blocksOf f pre @ blocksOf (foundAfter f pre) rest)" .
  show "blocksOf f (pre @ rest) = blocksOf f pre @ blocksOf (foundAfter f pre) rest"
    by (simp add: blocksOf_def[of f "pre @ rest"] e)
  show "introOf f (pre @ rest) = introOf f pre @ introOf (foundAfter f pre) rest"
    by (simp add: introOf_def[of f "pre @ rest"] e)
  show "foundAfter f (pre @ rest) = foundAfter (foundAfter f pre) rest"
    by (simp add: foundAfter_def[of f "pre @ rest"] e)
qed

lemma blocksOf_question_solution:
  assumes "isQuestionTag (lowerTag q)" "lowerTag s = ''solution''"
  shows "blocksOf f (q # s # post) = QuestionBlock (parseQuestion q) (Some (parseSolution s)) # blocksOf True post"
    and "introOf f (q # s # post) = introOf True post"
proof -
  have "processChildren (q # s # post) f [] [] =
        processChildren post True [] [QuestionBlock (parseQuestion q) (Some (parseSolution s))]"
    using assms by (simp add: isQuestionTag_not_html)
  also have "\<dots> = (foundAfter True post, [] @ introOf True post,
       [QuestionBlock (parseQuestion q) (Some (parseSolution s))] @ blocksOf True post)"
    by (rule processChildren_split)
  finally have e: "processChildren (q # s # post) f [] [] = (foundAfter True post, [] @ introOf True post,
       [QuestionBlock (parseQuestion q) (Some (parseSolution s))] @ blocksOf True post)" .
  show "blocksOf f (q # s # post) = QuestionBlock (parseQuestion q) (Some (parseSolution s)) # blocksOf True post"
    by (simp add: blocksOf_def[of f "q # s # post"] e del: processChildren.simps)
  show "introOf f (q # s # post) = introOf True post"
    by (simp add: introOf_def[of f "q # s # post"] e del: processChildren.simps)
qed

lemma processChildren_solution_first:
  assumes "lowerTag s = ''solution''"
  shows "processChildren (s # post) f i b = processChildren post f i b"
  using assms by (simp add: isQuestionTag_def)

lemma parseProblemDoc_ok:
  assumes "docQuerySelector (matchesType ''parsererror'') doc = None"
      and "docQuerySelector (matchesType ''problem'') doc = Some problemEl"
  shows "parseProblemDoc doc =
           Inr \<lparr> metadata = parseMetadata problemEl,
                 introHtml = introOf False (children problemEl),
                 blocks = blocksOf False (children problemEl) \<rparr>"
  using assms
  by (simp add: parseProblemDoc_def processChildren_split[of _ False "[]" "[]"])

text \<open>
  C3. A \<open>solution\<close> child that directly follows a question child \<open>q\<close> becomes the
  solution of the block of \<open>q\<close>, and the blocks go on with those of the children after
  it: it yields no block of its own. A \<open>solution\<close> child that is the first child or whose
  preceding child is not a question is skipped: the result is that of the children
  before it followed by that of the children after it, and no error is raised.
\<close>

theorem solution_paired_or_skipped:
  assumes "docQuerySelector (matchesType ''parsererror'') doc = None"
      and "docQuerySelector (matchesType ''problem'') doc = Some problemEl"
      and "lowerTag s = ''solution''"
  shows "(children problemEl = pre @ q # s # post \<and> isQuestionTag (lowerTag q) \<longrightarrow>
            (\<exists>p. parseProblemDoc doc = Inr p \<and>
                 blocks p = blocksOf False pre
                              @ QuestionBlock (parseQuestion q) (Some (parseSolution s))
                              # blocksOf True post))
       \<and> (children problemEl = pre @ s # post
            \<and> (pre = [] \<or> \<not> isQuestionTag (lowerTag (last pre))) \<longrightarrow>
            (\<exists>p. parseProblemDoc doc = Inr p \<and>
                 blocks p = blocksOf False pre @ blocksOf (foundAfter False pre) post \<and>
                 introHtml p = introOf False pre @ introOf (foundAfter False pre) post))"
proof (intro conjI impI)
  assume a: "children problemEl = pre @ q # s # post \<and> isQuestionTag (lowerTag q)"
  then have nq: "lowerTag (hd (q # s # post)) \<noteq> ''solution''"
    by (simp add: isQuestionTag_not_solution)
  have "blocksOf False (pre @ q # s # post) =
          blocksOf False pre @ blocksOf (foundAfter False pre) (q # s # post)"
    by (rule blocksOf_append(1)) (use nq in blast)
  also have "blocksOf (foundAfter False pre) (q # s # post) =
          QuestionBlock (parseQuestion q) (Some (parseSolution s)) # blocksOf True post"
    using a assms(3) by (intro blocksOf_question_solution(1)) auto
  finally show "\<exists>p. parseProblemDoc doc = Inr p \<and>
                 blocks p = blocksOf False pre
                              @ QuestionBlock (parseQuestion q) (Some (parseSolution s))
                              # blocksOf True post"
    using a by (simp add: parseProblemDoc_ok[OF assms(1,2)])
next
  assume b: "children problemEl = pre @ s # post
            \<and> (pre = [] \<or> \<not> isQuestionTag (lowerTag (last pre)))"
  then have c: "pre = [] \<or> s # post = [] \<or> \<not> isQuestionTag (lowerTag (last pre))
               \<or> lowerTag (hd (s # post)) \<noteq> ''solution''"
    by blast
  have skip: "blocksOf f (s # post) = blocksOf f post" "introOf f (s # post) = introOf f post" for f
    using processChildren_solution_first[OF assms(3), of post f "[]" "[]"]
    by (simp_all add: blocksOf_def introOf_def del: processChildren.simps)
  show "\<exists>p. parseProblemDoc doc = Inr p \<and>
                 blocks p = blocksOf False pre @ blocksOf (foundAfter False pre) post \<and>
                 introHtml p = introOf False pre @ introOf (foundAfter False pre) post"
    using b blocksOf_append(1,2)[OF c, of False] skip
    by (simp add: parseProblemDoc_ok[OF assms(1,2)])
qed

definition sampleQuestion :: node where
  "sampleQuestion =
     Element ''multiplechoiceresponse'' []
       [Element ''label'' [] [Text ''Q''],
        Element ''choicegroup'' []
          [Element ''choice'' [(''correct'', ''true'')] [Text ''A'']]]"

definition sampleSolution :: node where
  "sampleSolution = Element ''solution'' [] [Element ''p'' [] [Text ''Because'']]"

lemmas eval_simps =
  docQuerySelector_def matchesType_def localName_def children_def lowerTag_def
  toLowerCase_def toLowerChar_def isQuestionTag_def blocksOf_def introOf_def foundAfter_def
  parseQuestion_def parseMultipleChoice_def parseSolution_def labelOf_def querySelector_def
  querySelectorAll_def descendantElements_def matchesClass_def getAttribute_def trim_def
  isWhiteSpace_def innerHTML_def serializeAttrs_def parseHtmlBlock_def

theorem solution_paired_or_skipped_witness:
  "\<exists>p. parseProblemDoc
          (Document [Element ''problem'' [] [sampleQuestion, sampleSolution, sampleSolution]])
        = Inr p
      \<and> blocks p =
          [QuestionBlock
             (MultipleChoice ''Q'' [\<lparr> choiceText = ''A'', correct = True \<rparr>] False)
             (Some \<lparr> explanation = ''Because'', htmlContent = ''<p>Because</p>'' \<rparr>)]"
  using solution_paired_or_skipped
    [of "Document [Element ''problem'' [] [sampleQuestion, sampleSolution, sampleSolution]]"
        "Element ''problem'' [] [sampleQuestion, sampleSolution, sampleSolution]"
        sampleSolution "[]" sampleQuestion "[sampleSolution]"]
    solution_paired_or_skipped
    [of "Document [Element ''problem'' [] [sampleQuestion, sampleSolution, sampleSolution]]"
        "Element ''problem'' [] [sampleQuestion, sampleSolution, sampleSolution]"
        sampleSolution "[sampleQuestion, sampleSolution]" sampleQuestion "[]"]
  by (simp add: sampleQuestion_def sampleSolution_def eval_simps)

lemma processChildren_before_question:
  "\<forall>c\<in>set pre. \<not> isQuestionTag (lowerTag c) \<Longrightarrow>
   processChildren pre False i b =
     (False, i @ concat (map innerHTML (filter (\<lambda>c. lowerTag c = ''html'') pre)), b)"
  by (induction pre arbitrary: i) auto

lemma processChildren_after_question:
  "\<exists>b'. processChildren cs True i b = (True, i, b') \<and>
        filter (\<lambda>x. \<not> isQuestionBlock x) b' =
          filter (\<lambda>x. \<not> isQuestionBlock x) b
            @ map parseHtmlBlock (filter (\<lambda>c. lowerTag c = ''html'') cs)"
proof (induction cs "True" i b rule: processChildren.induct)
  case (1 i b)
  show ?case by simp
next
  case (2 child rest i b)
  have tlf: "rest \<noteq> [] \<Longrightarrow> lowerTag (hd rest) = ''solution'' \<Longrightarrow>
     filter (\<lambda>c. lowerTag c = ''html'') (tl rest) = filter (\<lambda>c. lowerTag c = ''html'') rest"
    by (cases rest) auto
  show ?case
    using "2.hyps"(2,3,4,5) tlf
    by (auto simp: parseHtmlBlock_def isQuestionTag_not_html)
qed

text \<open>
  C5. Let \<open>q\<close> be the first question child. The intro markup is the concatenation of
  the inner markup of the \<open>html\<close> children before \<open>q\<close>, and the blocks that are not
  question blocks are exactly the content blocks of the \<open>html\<close> children after \<open>q\<close>, in
  order. Without any question child all \<open>html\<close> children go to the intro markup and
  there is no block.
\<close>

theorem html_before_and_after_first_question:
  assumes "docQuerySelector (matchesType ''parsererror'') doc = None"
      and "docQuerySelector (matchesType ''problem'') doc = Some problemEl"
      and "\<forall>c\<in>set pre. \<not> isQuestionTag (lowerTag c)"
  shows "(children problemEl = pre @ q # post \<and> isQuestionTag (lowerTag q) \<longrightarrow>
            (\<exists>p. parseProblemDoc doc = Inr p \<and>
                 introHtml p = concat (map innerHTML (filter (\<lambda>c. lowerTag c = ''html'') pre)) \<and>
                 filter (\<lambda>b. \<not> isQuestionBlock b) (blocks p) =
                   map parseHtmlBlock (filter (\<lambda>c. lowerTag c = ''html'') post)))
       \<and> (children problemEl = pre \<longrightarrow>
            (\<exists>p. parseProblemDoc doc = Inr p \<and>
                 introHtml p = concat (map innerHTML (filter (\<lambda>c. lowerTag c = ''html'') pre)) \<and>
                 blocks p = []))"
proof (intro conjI impI)
  assume a: "children problemEl = pre @ q # post \<and> isQuestionTag (lowerTag q)"
  let ?intro = "concat (map innerHTML (filter (\<lambda>c. lowerTag c = ''html'') pre))"
  have nq: "lowerTag (hd (q # post)) \<noteq> ''solution''"
    using a by (simp add: isQuestionTag_not_solution)
  have "processChildren (pre @ q # post) False [] [] = processChildren (q # post) False ?intro []"
    using processChildren_append[of pre "q # post" False "[]" "[]"] nq
    by (simp add: processChildren_before_question[OF assms(3)] del: processChildren.simps)
  moreover obtain sol rest where
    st: "processChildren (q # post) False ?intro [] =
           processChildren rest True ?intro [QuestionBlock (parseQuestion q) sol]"
        "filter (\<lambda>c. lowerTag c = ''html'') rest = filter (\<lambda>c. lowerTag c = ''html'') post"
  proof (cases "post \<noteq> [] \<and> lowerTag (hd post) = ''solution''")
    case True
    then have "filter (\<lambda>c. lowerTag c = ''html'') (tl post) = filter (\<lambda>c. lowerTag c = ''html'') post"
      by (cases post) auto
    with True a that[of "tl post" "Some (parseSolution (hd post))"] show ?thesis
      by (simp add: isQuestionTag_not_html)
  next
    case False
    with a that[of post None] show ?thesis
      by (auto simp add: isQuestionTag_not_html)
  qed
  moreover obtain b' where
    "processChildren rest True ?intro [QuestionBlock (parseQuestion q) sol] = (True, ?intro, b')"
    "filter (\<lambda>x. \<not> isQuestionBlock x) b' =
       filter (\<lambda>x. \<not> isQuestionBlock x) [QuestionBlock (parseQuestion q) sol]
         @ map parseHtmlBlock (filter (\<lambda>c. lowerTag c = ''html'') rest)"
    using processChildren_after_question[of rest ?intro "[QuestionBlock (parseQuestion q) sol]"]
    by blast
  ultimately show "\<exists>p. parseProblemDoc doc = Inr p \<and>
                 introHtml p = ?intro \<and>
                 filter (\<lambda>b. \<not> isQuestionBlock b) (blocks p) =
                   map parseHtmlBlock (filter (\<lambda>c. lowerTag c = ''html'') post)"
    using a assms(1,2) by (simp add: parseProblemDoc_def del: processChildren.simps)
next
  assume "children problemEl = pre"
  then show "\<exists>p. parseProblemDoc doc = Inr p \<and>
                 introHtml p = concat (map innerHTML (filter (\<lambda>c. lowerTag c = ''html'') pre)) \<and>
                 blocks p = []"
    using assms(1,2) processChildren_before_question[OF assms(3), of "[]" "[]"]
    by (simp add: parseProblemDoc_def del: processChildren.simps)
qed

definition sampleHtml :: "string \<Rightarrow> node" where
  "sampleHtml s = Element ''html'' [] [Element ''b'' [] [Text s]]"

theorem html_before_and_after_first_question_witness:
  "\<exists>p. parseProblemDoc
          (Document [Element ''problem'' []
             [sampleHtml ''one'', sampleQuestion, sampleSolution, sampleHtml ''two'']])
        = Inr p
      \<and> introHtml p = ''<b>one</b>''
      \<and> filter (\<lambda>b. \<not> isQuestionBlock b) (blocks p) = [HtmlBlock ''<b>two</b>'']"
  using html_before_and_after_first_question
    [of "Document [Element ''problem'' []
             [sampleHtml ''one'', sampleQuestion, sampleSolution, sampleHtml ''two'']]"
        "Element ''problem'' []
             [sampleHtml ''one'', sampleQuestion, sampleSolution, sampleHtml ''two'']"
        "[sampleHtml ''one'']" sampleQuestion "[sampleSolution, sampleHtml ''two'']"]
  by (simp add: sampleQuestion_def sampleSolution_def sampleHtml_def eval_simps)

subsection \<open>Metadata\<close>

lemma subtreeElements_nonelement: "\<not> isElement n \<Longrightarrow> subtreeElements n = []"
  by (cases n) auto

lemma concat_subtreeElements_nonelements:
  "\<not> list_ex isElement ns \<Longrightarrow> concat (map subtreeElements ns) = []"
  by (induction ns) (auto simp: subtreeElements_nonelement)

lemma documentElements_root:
  "\<not> list_ex isElement pre \<Longrightarrow>
   documentElements (Document (pre @ Element t as cs # post)) =
     Element t as cs # concat (map subtreeElements cs) @ concat (map subtreeElements post)"
  by (simp add: concat_subtreeElements_nonelements)

definition withoutAttribute :: "string \<Rightarrow> (string \<times> string) list \<Rightarrow> (string \<times> string) list" where
  "withoutAttribute name as = filter (\<lambda>a. fst a \<noteq> name) as"

lemma map_of_withoutAttribute:
  "map_of (withoutAttribute name as) k = (if k = name then None else map_of as k)"
  by (induction as) (auto simp: withoutAttribute_def)

lemma parseMetadata_empty_display_name:
  assumes "map_of as ''display_name'' = Some []"
  shows "parseMetadata (Element t as cs) = parseMetadata (Element t (withoutAttribute ''display_name'' as) cs)"
    and "displayName (parseMetadata (Element t as cs)) = ''Untitled Problem''"
  using assms by (simp_all add: parseMetadata_def getAttribute_def map_of_withoutAttribute)

text \<open>
  C10. When the root element is the \<open>problem\<close> element and its \<open>display_name\<close> attribute
  is the empty string, \<open>parseProblem\<close> returns what it returns for the same document
  with the attribute removed, and whenever the platform reported no parse error the
  display name of the result is \<open>Untitled Problem\<close>.
\<close>

theorem empty_display_name_as_missing:
  assumes "\<not> list_ex isElement pre"
      and "localName t = ''problem''"
      and "map_of as ''display_name'' = Some []"
  shows "parseProblemDoc (Document (pre @ Element t as cs # post)) =
           parseProblemDoc (Document (pre @ Element t (withoutAttribute ''display_name'' as) cs # post))
       \<and> (docQuerySelector (matchesType ''parsererror'') (Document (pre @ Element t as cs # post)) = None
            \<longrightarrow> (\<exists>p. parseProblemDoc (Document (pre @ Element t as cs # post)) = Inr p \<and>
                      displayName (metadata p) = ''Untitled Problem''))"
  using assms(2) parseMetadata_empty_display_name[OF assms(3), of t cs]
  by (simp add: parseProblemDoc_def docQuerySelector_def documentElements_root[OF assms(1)]
      matchesType_def children_def split: option.splits prod.splits del: documentElements.simps)

theorem empty_display_name_as_missing_witness:
  "parseProblemDoc (Document [Comment ''c'', Element ''problem'' [(''display_name'', [])] []]) =
     parseProblemDoc (Document [Comment ''c'', Element ''problem'' [] []])
   \<and> (\<exists>p. parseProblemDoc (Document [Comment ''c'', Element ''problem'' [(''display_name'', [])] []]) = Inr p
          \<and> displayName (metadata p) = ''Untitled Problem'')"
  using empty_display_name_as_missing[of "[Comment ''c'']" "''problem''" "[(''display_name'', [])]" "[]" "[]"]
  by (simp add: withoutAttribute_def parseProblemDoc_def parseMetadata_def eval_simps)

text \<open>
  C4, as stated, fails: a \<open>max_attempts\<close> value that is not numeric is handed to
  \<open>parseInt\<close>, and the result is NaN, not null.
\<close>

theorem max_attempts_non_numeric_counterexample:
  "parseProblemDoc (Document [Element ''problem'' [(''max_attempts'', ''abc'')] []]) =
     Inr \<lparr> metadata = \<lparr> displayName = ''Untitled Problem'', maxAttempts = Some NaN, markdown = None \<rparr>,
           introHtml = [], blocks = [] \<rparr>"
  by (simp add: parseProblemDoc_def parseMetadata_def parseInt10_def isDigit_def eval_simps)

text \<open>
  C4, amended. Without a parse error and with a \<open>problem\<close> element, \<open>parseProblem\<close>
  returns a document and raises nothing; \<open>maxAttempts\<close> is null when the attribute is
  missing or empty, and \<open>parseInt(value, 10)\<close> for every other value, which is NaN
  (not null) when the value starts with neither white space, a sign nor a digit.
\<close>

theorem max_attempts_parsed:
  assumes "docQuerySelector (matchesType ''parsererror'') doc = None"
      and "docQuerySelector (matchesType ''problem'') doc = Some problemEl"
  shows "\<exists>p. parseProblemDoc doc = Inr p \<and>
           (getAttribute problemEl ''max_attempts'' = None \<or> getAttribute problemEl ''max_attempts'' = Some []
              \<longrightarrow> maxAttempts (metadata p) = None) \<and>
           (\<forall>v. getAttribute problemEl ''max_attempts'' = Some v \<and> v \<noteq> []
              \<longrightarrow> maxAttempts (metadata p) = Some (parseInt10 v)) \<and>
           (\<forall>v. getAttribute problemEl ''max_attempts'' = Some v \<and> v \<noteq> [] \<and> \<not> isWhiteSpace (hd v)
                  \<and> \<not> isDigit (hd v) \<and> hd v \<noteq> CHR ''-'' \<and> hd v \<noteq> CHR ''+''
              \<longrightarrow> maxAttempts (metadata p) = Some NaN)"
proof -
  have nan: "parseInt10 v = NaN"
    if "v \<noteq> []" "\<not> isWhiteSpace (hd v)" "\<not> isDigit (hd v)" "hd v \<noteq> CHR ''-''" "hd v \<noteq> CHR ''+''" for v
    using that by (cases v) (simp_all add: parseInt10_def Let_def)
  show ?thesis
    using nan by (auto simp add: parseProblemDoc_ok[OF assms] parseMetadata_def)
qed

theorem max_attempts_parsed_witness:
  "\<exists>p. parseProblemDoc (Document [Element ''problem'' [(''max_attempts'', ''x1'')] []]) = Inr p \<and>
       maxAttempts (metadata p) = Some NaN"
  using max_attempts_parsed[of "Document [Element ''problem'' [(''max_attempts'', ''x1'')] []]"
      "Element ''problem'' [(''max_attempts'', ''x1'')] []"]
  by (auto simp add: eval_simps isDigit_def)

subsection \<open>Solutions\<close>

definition dropExplanationHeader :: "string list \<Rightarrow> string list" where
  "dropExplanationHeader ts = (if ts \<noteq> [] \<and> hd ts = ''Explanation'' then tl ts else ts)"

definition paragraphTexts :: "node list \<Rightarrow> string list" where
  "paragraphTexts ps = map (\<lambda>p. trim (textContent p)) ps"

lemma collectTexts_later:
  "index \<noteq> 0 \<Longrightarrow> collectTexts index ps texts = texts @ paragraphTexts ps"
  by (induction ps arbitrary: index texts) (auto simp: paragraphTexts_def)

lemma collectTexts_first:
  "collectTexts 0 ps [] = dropExplanationHeader (paragraphTexts ps)"
  by (cases ps) (auto simp: collectTexts_later dropExplanationHeader_def paragraphTexts_def)

definition sampleDetailed :: node where
  "sampleDetailed =
     Element ''solution'' []
       [Element ''div'' [(''class'', ''detailed-solution'')]
          [Element ''p'' [] [Text ''Explanation''],
           Element ''div'' [] [Element ''p'' [] [Text ''Nested'']]]]"

text \<open>
  C8, as stated, fails: the paragraphs are all \<open>p\<close> descendants of the marker element,
  not its direct children only. In \<open>sampleDetailed\<close> the second paragraph is nested in a
  \<open>div\<close>; it is collected, while the direct paragraph children alone would give the
  empty explanation.
\<close>

theorem nested_paragraph_counterexample:
  "explanation (parseSolution sampleDetailed) = ''Nested''
   \<and> join [CHR 0x0A] (dropExplanationHeader (paragraphTexts
         (filter (matchesType ''p'') (children (hd (children sampleDetailed)))))) = []"
  by (simp add: sampleDetailed_def dropExplanationHeader_def paragraphTexts_def eval_simps)

text \<open>
  C8, amended. With a marker element (the first descendant of class
  \<open>detailed-solution\<close>) the explanation is the newline-joined trimmed text of all \<open>p\<close>
  descendants of the marker element in document order, the first one dropped when it
  reads exactly \<open>Explanation\<close>, and \<open>htmlContent\<close> is the inner markup of the marker
  element; without a marker element the explanation is the trimmed text of the whole
  element and \<open>htmlContent\<close> its inner markup.
\<close>

theorem parseSolution_spec:
  "(\<forall>m. querySelector (matchesClass ''detailed-solution'') el = Some m \<longrightarrow>
        explanation (parseSolution el) =
          join [CHR 0x0A] (dropExplanationHeader (paragraphTexts (querySelectorAll (matchesType ''p'') m)))
        \<and> htmlContent (parseSolution el) = innerHTML m)
   \<and> (querySelector (matchesClass ''detailed-solution'') el = None \<longrightarrow>
        explanation (parseSolution el) = trim (textContent el)
        \<and> htmlContent (parseSolution el) = innerHTML el)"
  by (simp add: parseSolution_def collectTexts_first)

theorem parseSolution_spec_witness:
  "explanation (parseSolution sampleDetailed) = ''Nested''
   \<and> htmlContent (parseSolution sampleDetailed) = ''<p>Explanation</p><div><p>Nested</p></div>''
   \<and> explanation (parseSolution sampleSolution) = ''Because''"
  using parseSolution_spec[of sampleDetailed] parseSolution_spec[of sampleSolution]
  by (simp add: sampleDetailed_def sampleSolution_def dropExplanationHeader_def paragraphTexts_def eval_simps)

section \<open>Properties of the validator\<close>

definition findingsOf :: "nat \<Rightarrow> question \<Rightarrow> solution option \<Rightarrow> validationError list" where
  "findingsOf n q sol =
     checkQuestion n q @ (if lacksExplanation sol then [missingExplanation n] else [])"

lemma validateBlocks_acc:
  "validateBlocks bs n (e0 @ errors) = e0 @ validateBlocks bs n errors"
  by (induction bs n errors rule: validateBlocks.induct) simp_all

lemma validateBlocks_append:
  "validateBlocks (xs @ ys) n errors =
     validateBlocks ys (n + length (filter isQuestionBlock xs)) (validateBlocks xs n errors)"
  by (induction xs n errors rule: validateBlocks.induct) simp_all

lemma finding_index:
  "questionIndex (noCorrectAnswer n) = Some n"
  "questionIndex (emptyChoices n) = Some n"
  "questionIndex (missingExplanation n) = Some n"
  by (simp_all add: noCorrectAnswer_def emptyChoices_def missingExplanation_def)

lemma findingsOf_index: "e \<in> set (findingsOf n q sol) \<Longrightarrow> questionIndex e = Some n"
  by (cases q) (auto simp: findingsOf_def finding_index split: if_splits)

lemma validateBlocks_index:
  "e \<in> set (validateBlocks bs n errors) \<Longrightarrow>
     e \<in> set errors \<or> (\<exists>k. questionIndex e = Some k \<and> n < k \<and> k \<le> n + length (filter isQuestionBlock bs))"
proof (induction bs n errors rule: validateBlocks.induct)
  case (1 n errors)
  then show ?case by simp
next
  case (2 c rest n errors)
  then show ?case by simp
next
  case (3 q sol rest n errors)
  from "3.prems" have "e \<in> set (validateBlocks rest (n + 1)
      (errors @ checkQuestion (n + 1) q
          @ (if lacksExplanation sol then [missingExplanation (n + 1)] else [])))"
    by (simp only: validateBlocks.simps)
  from "3.IH"[OF this] show ?case
    using findingsOf_index[of e "n + 1" q sol, unfolded findingsOf_def]
    by auto
qed

lemma validateProblem_at:
  assumes "blocks parsed = pre @ QuestionBlock q sol # post"
      and "N = Suc (length (filter isQuestionBlock pre))"
  shows "validateProblem parsed =
           validateBlocks pre 0 [] @ findingsOf N q sol @ validateBlocks post N []"
proof -
  have "validateProblem parsed =
          validateBlocks (QuestionBlock q sol # post) (length (filter isQuestionBlock pre))
            (validateBlocks pre 0 [])"
    by (simp add: validateProblem_def assms(1) validateBlocks_append)
  also have "\<dots> = validateBlocks post N (validateBlocks pre 0 [] @ findingsOf N q sol)"
    by (simp add: assms(2) findingsOf_def)
  also have "\<dots> = (validateBlocks pre 0 [] @ findingsOf N q sol) @ validateBlocks post N []"
    using validateBlocks_acc[of post N "validateBlocks pre 0 [] @ findingsOf N q sol" "[]"] by simp
  finally show ?thesis by simp
qed

lemma filter_index_outside:
  assumes "blocks parsed = pre @ QuestionBlock q sol # post"
      and "N = Suc (length (filter isQuestionBlock pre))"
  shows "filter (\<lambda>e. P e \<and> questionIndex e = Some N) (validateProblem parsed) =
           filter (\<lambda>e. P e \<and> questionIndex e = Some N) (findingsOf N q sol)"
proof -
  have a: "filter (\<lambda>e. P e \<and> questionIndex e = Some N) (validateBlocks pre 0 []) = []"
    using validateBlocks_index[of _ pre 0 "[]"] assms(2)
    by (fastforce simp: filter_empty_conv)
  have b: "filter (\<lambda>e. P e \<and> questionIndex e = Some N) (validateBlocks post N []) = []"
    using validateBlocks_index[of _ post N "[]"]
    by (fastforce simp: filter_empty_conv)
  show ?thesis
    by (simp add: validateProblem_at[OF assms] a b)
qed

text \<open>
  C6. For a multiple-choice question block at any position of a parsed document, with
  \<open>N\<close> its 1-based position among the question blocks, the findings of kind error
  with question index \<open>N\<close> are exactly the one error \<open>Question N has no correct answer\<close>
  when no choice is correct, and none when some choice is correct.
\<close>

theorem no_correct_answer_error:
  assumes "blocks parsed = pre @ QuestionBlock (MultipleChoice l cs sh) sol # post"
      and "N = Suc (length (filter isQuestionBlock pre))"
  shows "filter (\<lambda>e. severity e = error \<and> questionIndex e = Some N) (validateProblem parsed) =
           (if \<exists>c\<in>set cs. correct c then []
            else [\<lparr> severity = error,
                    message = ''Question '' @ showNat N @ '' has no correct answer'',
                    questionIndex = Some N \<rparr>])"
  by (simp add: filter_index_outside[OF assms] findingsOf_def noCorrectAnswer_def
      emptyChoices_def missingExplanation_def list_ex_iff)

text \<open>
  C7. For a question block at any position, with \<open>N\<close> its 1-based position among the
  question blocks, the finding \<open>Question N is missing an explanation\<close> with index \<open>N\<close>
  is in the output, once and as a warning, if and only if the solution is null, or its
  explanation trims to the empty string, or its explanation is exactly
  \<open>Add your explanation here\<close>.
\<close>

theorem missing_explanation_warning:
  assumes "blocks parsed = pre @ QuestionBlock q sol # post"
      and "N = Suc (length (filter isQuestionBlock pre))"
  shows "filter (\<lambda>e. message e = ''Question '' @ showNat N @ '' is missing an explanation''
                      \<and> questionIndex e = Some N) (validateProblem parsed) =
           (if sol = None \<or> trim (explanation (the sol)) = []
                \<or> explanation (the sol) = ''Add your explanation here''
            then [\<lparr> severity = warning,
                    message = ''Question '' @ showNat N @ '' is missing an explanation'',
                    questionIndex = Some N \<rparr>]
            else [])"
  by (cases q; cases sol)
     (simp_all add: filter_index_outside[OF assms] findingsOf_def noCorrectAnswer_def
      emptyChoices_def missingExplanation_def lacksExplanation_def)

definition sampleParsed :: parsedProblem where
  "sampleParsed =
     \<lparr> metadata = \<lparr> displayName = ''T'', maxAttempts = None, markdown = None \<rparr>,
       introHtml = [],
       blocks =
         [QuestionBlock (Numerical ''N'' ''1'' []) (Some \<lparr> explanation = ''ok'', htmlContent = ''ok'' \<rparr>),
          HtmlBlock ''<b>x</b>'',
          QuestionBlock
            (MultipleChoice ''Q'' [\<lparr> choiceText = ''A'', correct = False \<rparr>] False)
            (Some \<lparr> explanation = ''Add your explanation here'', htmlContent = [] \<rparr>)] \<rparr>"

theorem no_correct_answer_error_witness:
  "filter (\<lambda>e. severity e = error \<and> questionIndex e = Some 2) (validateProblem sampleParsed) =
     [\<lparr> severity = error, message = ''Question 2 has no correct answer'', questionIndex = Some 2 \<rparr>]"
  using no_correct_answer_error
    [of sampleParsed
        "[QuestionBlock (Numerical ''N'' ''1'' []) (Some \<lparr> explanation = ''ok'', htmlContent = ''ok'' \<rparr>),
          HtmlBlock ''<b>x</b>'']"
        "''Q''" "[\<lparr> choiceText = ''A'', correct = False \<rparr>]" False
        "Some \<lparr> explanation = ''Add your explanation here'', htmlContent = [] \<rparr>" "[]" 2]
  by (simp add: sampleParsed_def showNat.simps)

theorem missing_explanation_warning_witness:
  "filter (\<lambda>e. message e = ''Question 2 is missing an explanation'' \<and> questionIndex e = Some 2)
     (validateProblem sampleParsed) =
     [\<lparr> severity = warning, message = ''Question 2 is missing an explanation'',
         questionIndex = Some 2 \<rparr>]"
  using missing_explanation_warning
    [of sampleParsed
        "[QuestionBlock (Numerical ''N'' ''1'' []) (Some \<lparr> explanation = ''ok'', htmlContent = ''ok'' \<rparr>),
          HtmlBlock ''<b>x</b>'']"
        "MultipleChoice ''Q'' [\<lparr> choiceText = ''A'', correct = False \<rparr>] False"
        "Some \<lparr> explanation = ''Add your explanation here'', htmlContent = [] \<rparr>" "[]" 2]
  by (simp add: sampleParsed_def showNat.simps)

section \<open>Text that is not well-formed\<close>

text \<open>
  C9. When the document the platform returns for the text holds a \<open>parsererror\<close> element
  (its report of text that is not well-formed), \<open>formatXmlPreserveInline\<close> returns the text
  unchanged, for every indent size that \<open>' '.repeat\<close> accepts, and \<open>parseProblem\<close> fails
  with the error \<open>XML Parse Error:\<close> followed by the diagnostic, returning no document.
\<close>

theorem malformed_input:
  assumes "docQuerySelector (matchesType ''parsererror'') (parseFromString xml) = Some parseError"
      and "0 \<le> indentSize"
  shows "formatXmlPreserveInline xml indentSize = Inr xml
       \<and> parseProblem xml = Inl (Error (''XML Parse Error: '' @ textContent parseError))"
  using assms
  by (simp add: formatXmlPreserveInline_def formatXmlDoc_def parseProblem_def parseProblemDoc_def)

lemma unclosed_tag_parse:
  "parseFromString ''<problem><html>intro</problem>'' =
     Document [Element ''parsererror'' [] [Text ''mismatched end tag'']]"
  by code_simp

theorem malformed_input_witness:
  "formatXmlPreserveInline ''<problem><html>intro</problem>'' 2 = Inr ''<problem><html>intro</problem>''
   \<and> parseProblem ''<problem><html>intro</problem>'' = Inl (Error ''XML Parse Error: mismatched end tag'')"
  using malformed_input[of "''<problem><html>intro</problem>''"
      "Element ''parsererror'' [] [Text ''mismatched end tag'']" 2]
  by (simp add: unclosed_tag_parse docQuerySelector_def matchesType_def localName_def)

section \<open>Formatting and parsing again\<close>

definition plainChar :: "char \<Rightarrow> bool" where
  "plainChar c =
     (isXmlChar c \<and> c \<noteq> CHR ''<'' \<and> c \<noteq> CHR ''>'' \<and> c \<noteq> CHR ''&'' \<and> c \<noteq> CHR 0x0D)"

definition attrChar :: "char \<Rightarrow> bool" where
  "attrChar c = (plainChar c \<and> c \<noteq> CHR 0x22 \<and> c \<noteq> CHR 0x09 \<and> c \<noteq> CHR 0x0A)"

definition validName :: "string \<Rightarrow> bool" where
  "validName n = (n \<noteq> [] \<and> isNameStartChar (hd n) \<and> list_all isNameChar n)"

definition commentData :: "string \<Rightarrow> bool" where
  "commentData s =
     (list_all (\<lambda>c. isXmlChar c \<and> c \<noteq> CHR 0x0D) s \<and> breakOn ''--'' (s @ ''-'') = None)"

definition plainAttribute :: "string \<times> string \<Rightarrow> bool" where
  "plainAttribute a = (validName (fst a) \<and> list_all attrChar (snd a))"

fun plain :: "node \<Rightarrow> bool" where
  "plain (Element t as cs) =
     (validName t \<and> list_all plainAttribute as \<and> distinct (map fst as) \<and> list_all plain cs)"
| "plain (Text s) = list_all plainChar s"
| "plain (CDATASection s) = list_all plainChar s"
| "plain (Comment s) = commentData s"
| "plain (ProcessingInstruction t s) = True"

subsection \<open>Trimming\<close>

lemma trim_subset: "set (trim s) \<subseteq> set s"
proof
  fix x assume "x \<in> set (trim s)"
  then have "x \<in> set (dropWhile isWhiteSpace (rev (dropWhile isWhiteSpace s)))"
    by (simp add: trim_def)
  then have "x \<in> set (rev (dropWhile isWhiteSpace s))" by (rule set_dropWhileD)
  then have "x \<in> set (dropWhile isWhiteSpace s)" by simp
  then show "x \<in> set s" by (rule set_dropWhileD)
qed

lemma dropWhile_id: "xs = [] \<or> \<not> P (hd xs) \<Longrightarrow> dropWhile P xs = xs"
  by (cases xs) auto

lemma dropWhile_all: "list_all P v \<Longrightarrow> dropWhile P (v @ t) = dropWhile P t"
  by (induction v) auto

lemma last_dropWhile: "dropWhile P xs \<noteq> [] \<Longrightarrow> last (dropWhile P xs) = last xs"
  by (induction xs) (auto split: if_splits)

lemma trim_ends:
  assumes "trim s \<noteq> []"
  shows "\<not> isWhiteSpace (hd (trim s))" "\<not> isWhiteSpace (last (trim s))"
proof -
  define d where "d = dropWhile isWhiteSpace s"
  define r where "r = dropWhile isWhiteSpace (rev d)"
  have t: "trim s = rev r" by (simp add: trim_def d_def r_def)
  with assms have r: "r \<noteq> []" by simp
  then have "\<not> isWhiteSpace (hd r)" unfolding r_def by (rule hd_dropWhile)
  then show "\<not> isWhiteSpace (last (trim s))" using r by (simp add: t last_rev)
  from r have d: "d \<noteq> []" by (auto simp: r_def)
  then have "\<not> isWhiteSpace (hd d)" unfolding d_def by (rule hd_dropWhile)
  moreover have "last r = last (rev d)" using r unfolding r_def by (rule last_dropWhile)
  ultimately show "\<not> isWhiteSpace (hd (trim s))" using r d by (simp add: t hd_rev last_rev)
qed

lemma trim_white: "list_all isWhiteSpace v \<Longrightarrow> trim v = []"
proof -
  assume "list_all isWhiteSpace v"
  then have "dropWhile isWhiteSpace v = []" by (induction v) auto
  then show ?thesis by (simp only: trim_def rev.simps dropWhile.simps)
qed

lemma trim_trimmed:
  assumes "t \<noteq> []" "\<not> isWhiteSpace (hd t)" "\<not> isWhiteSpace (last t)"
      and "list_all isWhiteSpace v" "list_all isWhiteSpace v'"
  shows "trim (v @ t @ v') = t"
proof -
  have "dropWhile isWhiteSpace (v @ t @ v') = dropWhile isWhiteSpace (t @ v')"
    using assms(4) by (rule dropWhile_all)
  also have "\<dots> = t @ v'" using assms(1,2) by (intro dropWhile_id) simp
  finally have 1: "dropWhile isWhiteSpace (v @ t @ v') = t @ v'" .
  have "dropWhile isWhiteSpace (rev v' @ rev t) = dropWhile isWhiteSpace (rev t)"
    using assms(5) by (intro dropWhile_all) (simp add: list_all_iff)
  also have "\<dots> = rev t" using assms(1,3) by (intro dropWhile_id) (simp add: hd_rev)
  finally show ?thesis by (simp add: trim_def 1)
qed

lemma trim_idem: "trim (trim s) = trim s"
proof (cases "trim s = []")
  case True
  have "trim [] = []" by (simp add: trim_def)
  with True show ?thesis by simp
next
  case False
  from trim_trimmed[OF False trim_ends[OF False], of "[]" "[]"] show ?thesis by simp
qed

text \<open>A run of trimmed texts, each on a line of its own.\<close>

definition isRun :: "string \<Rightarrow> bool" where
  "isRun w = (w = [] \<or> (hd w = CHR 0x0A \<and> tl w \<noteq> [] \<and> \<not> isWhiteSpace (hd (tl w))
                        \<and> \<not> isWhiteSpace (last w)))"

definition textPiece :: "string \<Rightarrow> string" where
  "textPiece s = (if trim s = [] then [] else CHR 0x0A # trim s)"

lemma isRun_textPiece: "isRun (textPiece s)"
  using trim_ends[of s] by (auto simp: isRun_def textPiece_def)

lemma isRun_append: "isRun w \<Longrightarrow> isRun v \<Longrightarrow> isRun (w @ v)"
  by (cases w; cases v) (auto simp: isRun_def)

lemma isWhiteSpace_LF: "isWhiteSpace (CHR 0x0A)"
  by (simp add: isWhiteSpace_def)

lemma textPiece_run:
  assumes "isRun w" "list_all isWhiteSpace v"
  shows "textPiece (w @ v) = w"
proof (cases "w = []")
  case True
  with assms show ?thesis by (simp add: textPiece_def trim_white)
next
  case False
  with assms(1) obtain u where w: "w = CHR 0x0A # u" and u: "u \<noteq> []"
      "\<not> isWhiteSpace (hd u)" "\<not> isWhiteSpace (last u)"
    by (cases w) (auto simp: isRun_def)
  have "trim ([CHR 0x0A] @ u @ v) = u"
    by (rule trim_trimmed[OF u]) (use assms(2) isWhiteSpace_LF in auto)
  then show ?thesis using u by (simp add: textPiece_def w)
qed

subsection \<open>Reading back what the formatter writes\<close>

lemma plainChar_simps:
  "plainChar c \<Longrightarrow> c \<noteq> CHR ''<''" "plainChar c \<Longrightarrow> c \<noteq> CHR ''>''"
  "plainChar c \<Longrightarrow> c \<noteq> CHR ''&''" "plainChar c \<Longrightarrow> c \<noteq> CHR 0x0D" "plainChar c \<Longrightarrow> isXmlChar c"
  by (simp_all add: plainChar_def)

lemma not_nameChar:
  "\<not> isNameChar (CHR ''>'')" "\<not> isNameChar (CHR '' '')" "\<not> isNameChar (CHR ''='')"
  "\<not> isNameChar (CHR ''/'')" "\<not> isNameChar (CHR ''<'')" "\<not> isNameChar (CHR 0x0A)"
  by (simp_all add: isNameChar_def isNameStartChar_def isDigit_def)

lemma not_nameStartChar:
  "\<not> isNameStartChar (CHR ''!'')" "\<not> isNameStartChar (CHR ''?'')" "\<not> isNameStartChar (CHR ''/'')"
  "\<not> isNameStartChar (CHR ''>'')" "\<not> isNameStartChar (CHR '' '')"
  by (simp_all add: isNameStartChar_def)

lemma nameStart_not_space: "isNameStartChar c \<Longrightarrow> \<not> isXmlSpace c"
  by (auto simp: isNameStartChar_def isXmlSpace_def Let_def)

lemma breakOn_None: "x \<in> set d \<Longrightarrow> x \<notin> set s \<Longrightarrow> breakOn d s = None"
proof (induction s)
  case Nil
  then show ?case by auto
next
  case (Cons c cs)
  have "take (length d) (c # cs) \<noteq> d"
  proof
    assume "take (length d) (c # cs) = d"
    then have "set d \<subseteq> set (c # cs)" by (metis set_take_subset)
    with Cons.prems show False by auto
  qed
  with Cons show ?case by simp
qed

lemma decodeRefs_plain:
  "CHR ''&'' \<notin> set s \<Longrightarrow> decodeRefs f None s = Some (map f s)"
  by (induction s) auto

lemma takeWhile_name:
  "list_all isNameChar t \<Longrightarrow> \<not> isNameChar x \<Longrightarrow> takeWhile isNameChar (t @ x # r) = t"
  by (induction t) auto

lemma dropWhile_name:
  "list_all isNameChar t \<Longrightarrow> \<not> isNameChar x \<Longrightarrow> dropWhile isNameChar (t @ x # r) = x # r"
  by (induction t) auto

lemma takeWhile_until:
  "x \<notin> set v \<Longrightarrow> takeWhile (\<lambda>c. c \<noteq> x) (v @ x # r) = v"
  by (induction v) auto

lemma dropWhile_until:
  "x \<notin> set v \<Longrightarrow> dropWhile (\<lambda>c. c \<noteq> x) (v @ x # r) = x # r"
  by (induction v) auto

lemma nextToken_text:
  assumes "w \<noteq> []" "list_all plainChar w"
  shows "nextToken (w @ CHR ''<'' # rest) = Some (TText w w, CHR ''<'' # rest)"
proof -
  from assms(2) have no: "CHR ''<'' \<notin> set w" "CHR ''>'' \<notin> set w" "CHR ''&'' \<notin> set w"
    by (auto simp: list_all_iff plainChar_def)
  from assms(1) no(1) have hd: "hd (w @ CHR ''<'' # rest) \<noteq> CHR ''<''" by (cases w) auto
  have b: "breakOn '']]>'' w = None" by (rule breakOn_None[of "CHR ''>''"]) (use no in auto)
  show ?thesis
    using assms(1) hd
    by (simp add: nextToken_def takeWhile_until[OF no(1)] dropWhile_until[OF no(1)] b
        decodeRefs_plain[OF no(3)])
qed


lemma breakOn_comment:
  "breakOn ''--'' (s @ ''-'') = None \<Longrightarrow> breakOn ''--'' (s @ ''--'' @ r) = Some (s, r)"
proof (induction s)
  case Nil
  then show ?case by simp
next
  case (Cons c cs)
  then show ?case by (cases cs) (auto split: if_splits)
qed


lemma nextToken_comment:
  assumes "commentData s"
  shows "nextToken (''<!--'' @ s @ ''-->'' @ rest) = Some (TComment s, rest)"
  using breakOn_comment[of s "CHR ''>'' # rest"] assms
  by (simp add: nextToken_def commentData_def)


lemma nextToken_end:
  assumes "validName t"
  shows "nextToken (''</'' @ t @ ''>'' @ rest) = Some (TEnd t, rest)"
  using assms
  by (simp add: nextToken_def validName_def takeWhile_name dropWhile_name not_nameChar isXmlSpace_def)


lemma normalizeAttrChar_id: "list_all attrChar v \<Longrightarrow> map normalizeAttrChar v = v"
  by (induction v) (auto simp: attrChar_def plainChar_def normalizeAttrChar_def)

lemma attr_facts:
  assumes "plainAttribute (n, v)"
  shows "n \<noteq> []" "isNameStartChar (hd n)" "list_all isNameChar n"
    "CHR 0x22 \<notin> set v" "CHR ''<'' \<notin> set v" "CHR ''&'' \<notin> set v"
    "map normalizeAttrChar v = v"
  using assms normalizeAttrChar_id[of v]
  by (auto simp: plainAttribute_def validName_def list_all_iff attrChar_def plainChar_def)

lemma parseAttribute_written:
  assumes "plainAttribute (n, v)"
  shows "parseAttribute (n @ ''='' @ [CHR 0x22] @ v @ [CHR 0x22] @ r) = Some ((n, v), r)"
proof -
  note f = attr_facts[OF assms]
  define s1 where "s1 = CHR ''='' # CHR 0x22 # v @ CHR 0x22 # r"
  define s2 where "s2 = CHR 0x22 # v @ CHR 0x22 # r"
  have e: "n @ ''='' @ [CHR 0x22] @ v @ [CHR 0x22] @ r = n @ CHR ''='' # tl s1"
    by (simp add: s1_def)
  have 1: "takeWhile isNameChar (n @ CHR ''='' # tl s1) = n"
    by (rule takeWhile_name[OF f(3) not_nameChar(3)])
  have 2: "dropWhile isXmlSpace (dropWhile isNameChar (n @ CHR ''='' # tl s1)) = s1"
    by (simp add: dropWhile_name[OF f(3) not_nameChar(3)] s1_def isXmlSpace_def)
  have 3: "s1 \<noteq> []" "hd s1 = CHR ''=''" "dropWhile isXmlSpace (tl s1) = s2"
    by (simp_all add: s1_def s2_def isXmlSpace_def)
  have 4: "s2 \<noteq> []" "hd s2 = CHR 0x22"
    "takeWhile (\<lambda>c. c \<noteq> CHR 0x22) (tl s2) = v"
    "dropWhile (\<lambda>c. c \<noteq> CHR 0x22) (tl s2) = CHR 0x22 # r"
    by (simp_all add: s2_def takeWhile_until[OF f(4)] dropWhile_until[OF f(4)])
  show ?thesis
    unfolding e parseAttribute_def Let_def 1 2
    by (simp add: 3 4 f decodeRefs_plain[OF f(6)])
qed

lemma attrsString_Cons:
  "attrsString ((n, v) # as) = '' '' @ n @ ''='' @ [CHR 0x22] @ v @ [CHR 0x22] @ attrsString as"
  by (simp add: attrsString_def)


lemma parseAttributes_written:
  "list_all plainAttribute as \<Longrightarrow> distinct (map fst (acc @ as)) \<Longrightarrow>
   parseAttributes acc (attrsString as @ CHR ''>'' # rest) = Some (acc @ as, False, rest)"
proof (induction as arbitrary: acc)
  case Nil
  show ?case
    by (subst parseAttributes.simps) (simp add: attrsString_def isXmlSpace_def)
next
  case (Cons a as)
  obtain n v where a: "a = (n, v)" by (cases a)
  from Cons.prems(1) a have pa: "plainAttribute (n, v)" by simp
  then have n: "n \<noteq> []" "isNameStartChar (hd n)" by (auto simp: plainAttribute_def validName_def)
  then have hdn: "\<not> isXmlSpace (hd n)" "hd n \<noteq> CHR ''>''" "hd n \<noteq> CHR ''/''"
    using not_nameStartChar by (auto simp: nameStart_not_space)
  define r where "r = attrsString as @ CHR ''>'' # rest"
  define input where "input = attrsString (a # as) @ CHR ''>'' # rest"
  define s where "s = n @ ''='' @ [CHR 0x22] @ v @ [CHR 0x22] @ r"
  have dw: "dropWhile isXmlSpace input = s"
    using n hdn(1) by (cases n) (auto simp: a attrsString_Cons isXmlSpace_def input_def s_def r_def)
  have hs: "s \<noteq> []" "hd s = hd n" using n by (auto simp: s_def)
  have hi: "isXmlSpace (hd input)"
    by (simp add: a attrsString_Cons input_def isXmlSpace_def)
  have pa': "parseAttribute s = Some (a, r)"
    unfolding s_def a by (rule parseAttribute_written[OF pa])
  have fresh: "fst a \<notin> set (map fst acc)" using Cons.prems(2) a by auto
  have rec: "parseAttributes (acc @ [a]) r = Some (acc @ a # as, False, rest)"
    using Cons.IH[of "acc @ [a]"] Cons.prems by (simp add: r_def)
  have "parseAttributes acc input = Some (acc @ a # as, False, rest)"
    by (subst parseAttributes.simps) (simp add: Let_def dw hs hdn hi pa' fresh rec del: set_map)
  then show ?case by (simp add: input_def)
qed


lemma attrsString_start:
  "attrsString as @ CHR ''>'' # rest \<noteq> [] \<and> \<not> isNameChar (hd (attrsString as @ CHR ''>'' # rest))"
  by (cases as) (auto simp: attrsString_def not_nameChar)


lemma nextToken_start:
  assumes "validName t" "list_all plainAttribute as" "distinct (map fst as)"
  shows "nextToken (CHR ''<'' # t @ attrsString as @ CHR ''>'' # rest) = Some (TStart t as False, rest)"
proof -
  from assms(1) obtain c cs where t: "t = c # cs" and c: "isNameStartChar c"
    and all: "list_all isNameChar t"
    by (cases t) (auto simp: validName_def)
  from c not_nameStartChar have c': "c \<noteq> CHR ''!''" "c \<noteq> CHR ''?''" "c \<noteq> CHR ''/''" by auto
  obtain x r where xr: "attrsString as @ CHR ''>'' # rest = x # r" and x: "\<not> isNameChar x"
    using attrsString_start[of as rest] by (cases "attrsString as @ CHR ''>'' # rest") auto
  have tw: "takeWhile isNameChar (t @ attrsString as @ CHR ''>'' # rest) = t"
    unfolding xr by (rule takeWhile_name[OF all x])
  have dw: "dropWhile isNameChar (t @ attrsString as @ CHR ''>'' # rest) = attrsString as @ CHR ''>'' # rest"
    unfolding xr by (rule dropWhile_name[OF all x])
  have pa: "parseAttributes [] (attrsString as @ CHR ''>'' # rest) = Some (as, False, rest)"
    using parseAttributes_written[of as "[]" rest] assms(2,3) by simp
  show ?thesis
    using c c' tw dw pa
    by (simp add: nextToken_def t)
qed

lemma parseNodes_text:
  assumes "stack \<noteq> []" "w \<noteq> []" "list_all plainChar w"
  shows "parseNodes stack acc (w @ CHR ''<'' # rest) = parseNodes stack (acc @ [Text w]) (CHR ''<'' # rest)"
  using assms(1,2)
  by (subst parseNodes.simps) (simp add: nextToken_text[OF assms(2,3)])

lemma parseNodes_comment:
  assumes "commentData s"
  shows "parseNodes stack acc (''<!--'' @ s @ ''-->'' @ rest) = parseNodes stack (acc @ [Comment s]) rest"
  by (subst parseNodes.simps) (simp add: nextToken_comment[OF assms, simplified])

lemma parseNodes_start:
  assumes "validName t" "list_all plainAttribute as" "distinct (map fst as)"
      and "stack \<noteq> [] \<or> \<not> list_ex isElement acc"
  shows "parseNodes stack acc (CHR ''<'' # t @ attrsString as @ CHR ''>'' # rest) =
           parseNodes ((t, as, acc) # stack) [] rest"
  using assms(4)
  by (subst parseNodes.simps) (auto simp add: nextToken_start[OF assms(1,2,3)])

lemma parseNodes_end:
  assumes "validName t"
  shows "parseNodes ((t, as, before) # stack) acc (''</'' @ t @ ''>'' @ rest) =
           parseNodes stack (before @ [Element t as acc]) rest"
  by (subst parseNodes.simps) (simp add: nextToken_end[OF assms, simplified])

text \<open>
  The text between the tags of an element as the formatter writes it, and one child
  with the line break before it.
\<close>

definition piece :: "string \<Rightarrow> nat \<Rightarrow> node \<Rightarrow> string" where
  "piece P k c = (if formatNode P c k \<noteq> [] then CHR 0x0A # formatNode P c k else [])"

definition inner :: "string \<Rightarrow> nat \<Rightarrow> node \<Rightarrow> string" where
  "inner P k e =
     (if childNodes e = [] then []
      else if list_ex isElement (childNodes e)
      then concat (map (piece P (k + 1)) (childNodes e)) @ CHR 0x0A # repeat P k
      else trim (descendantText e))"

definition markup :: "string \<Rightarrow> nat \<Rightarrow> node \<Rightarrow> string" where
  "markup P k e =
     CHR ''<'' # tagName e @ attrsString (attributes e) @ CHR ''>'' # inner P k e
       @ ''</'' @ tagName e @ ''>''"

lemma piece_fun:
  "(\<lambda>child. if formatNode P child k \<noteq> [] then [CHR 0x0A] @ formatNode P child k else []) = piece P k"
  by (rule ext) (simp add: piece_def)

lemma hasOnlyText_no_elements: "length cs = 1 \<Longrightarrow> isText (cs ! 0) \<Longrightarrow> \<not> list_ex isElement cs"
  by (cases cs; cases "hd cs") auto

lemma formatNode_Element:
  "formatNode P (Element t as cs) k = repeat P k @ markup P k (Element t as cs)"
proof -
  consider (none) "cs = []" | (elems) "cs \<noteq> []" "list_ex isElement cs"
    | (noelems) "cs \<noteq> []" "\<not> list_ex isElement cs" by blast
  then show ?thesis
  proof cases
    case none
    then show ?thesis by (simp add: markup_def inner_def)
  next
    case elems
    then have "\<not> (length cs = 1 \<and> isText (cs ! 0))" using hasOnlyText_no_elements by blast
    with elems show ?thesis
      by (auto simp add: markup_def inner_def piece_fun Let_def)
  next
    case noelems
    then show ?thesis
      by (simp add: markup_def inner_def Let_def)
  qed
qed

text \<open>The tree that the platform parser builds from the formatted text of a tree.\<close>

fun reparseNode :: "string \<Rightarrow> nat \<Rightarrow> node \<Rightarrow> node"
  and reparseChildren :: "string \<Rightarrow> nat \<Rightarrow> string \<Rightarrow> node list \<Rightarrow> node list \<times> string" where
  "reparseNode P k (Element t as cs) =
     (if cs = [] then Element t as []
      else if list_ex isElement cs
      then (case reparseChildren P (k + 1) [] cs of
              (cs', w) \<Rightarrow> Element t as (cs' @ [Text (w @ CHR 0x0A # repeat P k)]))
      else Element t as
             (if trim (descendantText (Element t as cs)) = [] then []
              else [Text (trim (descendantText (Element t as cs)))]))"
| "reparseNode P k (Text s) = Text s"
| "reparseNode P k (CDATASection s) = CDATASection s"
| "reparseNode P k (Comment s) = Comment s"
| "reparseNode P k (ProcessingInstruction t s) = ProcessingInstruction t s"
| "reparseChildren P k w [] = ([], w)"
| "reparseChildren P k w (Element t as cs0 # cs) =
     (case reparseChildren P k [] cs of
        (cs', w') \<Rightarrow> (Text (w @ CHR 0x0A # repeat P k) # reparseNode P k (Element t as cs0) # cs', w'))"
| "reparseChildren P k w (Comment s # cs) =
     (case reparseChildren P k [] cs of
        (cs', w') \<Rightarrow> (Text (w @ CHR 0x0A # repeat P k) # Comment s # cs', w'))"
| "reparseChildren P k w (Text s # cs) = reparseChildren P k (w @ textPiece s) cs"
| "reparseChildren P k w (CDATASection s # cs) = reparseChildren P k w cs"
| "reparseChildren P k w (ProcessingInstruction t s # cs) = reparseChildren P k w cs"

fun skeleton :: "node \<Rightarrow> node" where
  "skeleton (Element t as cs) = Element t as (map skeleton (filter isElement cs))"
| "skeleton n = n"

definition reads :: "string \<Rightarrow> node \<Rightarrow> bool" where
  "reads P e =
     (\<forall>k. formatNode P (reparseNode P k e) k = formatNode P e k
        \<and> skeleton (reparseNode P k e) = skeleton e
        \<and> isElement (reparseNode P k e)
        \<and> (\<forall>stack acc rest. stack \<noteq> [] \<or> \<not> list_ex isElement acc \<longrightarrow>
              parseNodes stack acc (markup P k e @ rest) =
                parseNodes stack (acc @ [reparseNode P k e]) rest))"

lemma piece_simps:
  "piece P k (Text s) = textPiece s"
  "piece P k (CDATASection s) = []"
  "piece P k (ProcessingInstruction t s) = []"
  "piece P k (Comment s) = CHR 0x0A # repeat P k @ ''<!--'' @ s @ ''-->''"
  "piece P k (Element t as cs) = CHR 0x0A # repeat P k @ markup P k (Element t as cs)"
  by (simp_all add: piece_def textPiece_def formatNode_Element markup_def del: formatNode.simps(5))

lemma spaces_repeat:
  assumes "list_all (\<lambda>c. c = CHR '' '') P"
  shows "list_all (\<lambda>c. c = CHR '' '') (repeat P k)"
  using assms by (induction k) (auto simp: repeat_def)

lemma space_chars:
  "plainChar (CHR '' '')" "plainChar (CHR 0x0A)" "isWhiteSpace (CHR '' '')" "isWhiteSpace (CHR 0x0A)"
  by (simp_all add: plainChar_def isXmlChar_def isWhiteSpace_def)

lemma all_spaces_plain: "list_all (\<lambda>c. c = CHR '' '') s \<Longrightarrow> list_all plainChar s"
  by (induction s) (simp_all add: space_chars)

lemma all_spaces_white: "list_all (\<lambda>c. c = CHR '' '') s \<Longrightarrow> list_all isWhiteSpace s"
  by (induction s) (simp_all add: space_chars)

lemma pad_facts:
  assumes "list_all (\<lambda>c. c = CHR '' '') P"
  shows "list_all plainChar (CHR 0x0A # repeat P k)"
    and "list_all isWhiteSpace (CHR 0x0A # repeat P k)"
  using all_spaces_plain[OF spaces_repeat[OF assms, of k]] all_spaces_white[OF spaces_repeat[OF assms, of k]]
  by (simp_all add: space_chars)

lemma textPiece_plain: "list_all plainChar s \<Longrightarrow> list_all plainChar (textPiece s)"
  using trim_subset[of s]
  by (auto simp: textPiece_def list_all_iff plainChar_def isXmlChar_def)

lemma markup_starts: "\<exists>m. markup P k e = CHR ''<'' # m"
  by (simp add: markup_def)


definition childrenRead ::
  "string \<Rightarrow> nat \<Rightarrow> string \<Rightarrow> node list \<Rightarrow> node list \<Rightarrow> string \<Rightarrow> bool" where
  "childrenRead P k w cs cs' w' =
     (isRun w' \<and> list_all plainChar w'
      \<and> concat (map (piece P k) cs') @ w' = w @ concat (map (piece P k) cs)
      \<and> map skeleton (filter isElement cs') = map skeleton (filter isElement cs)
      \<and> (\<forall>stack acc rest. stack \<noteq> [] \<longrightarrow>
            parseNodes stack acc (w @ concat (map (piece P k) cs) @ rest) =
              parseNodes stack (acc @ cs') (w' @ rest)))"

lemma childrenReadD:
  assumes "childrenRead P k w cs cs' w'"
  shows "isRun w'" "list_all plainChar w'"
    "concat (map (piece P k) cs') @ w' = w @ concat (map (piece P k) cs)"
    "map skeleton (filter isElement cs') = map skeleton (filter isElement cs)"
    "stack \<noteq> [] \<Longrightarrow> parseNodes stack acc (w @ concat (map (piece P k) cs) @ rest) =
              parseNodes stack (acc @ cs') (w' @ rest)"
  using assms unfolding childrenRead_def by blast+

lemma childrenRead_Nil: "isRun w \<Longrightarrow> list_all plainChar w \<Longrightarrow> childrenRead P k w [] [] w"
  unfolding childrenRead_def by simp

lemma childrenRead_skip:
  assumes "childrenRead P k w cs cs' w'" "piece P k c = []" "\<not> isElement c"
  shows "childrenRead P k w (c # cs) cs' w'"
  using assms unfolding childrenRead_def by simp

lemma childrenRead_text:
  assumes "childrenRead P k (w @ textPiece s) cs cs' w'"
  shows "childrenRead P k w (Text s # cs) cs' w'"
  using assms unfolding childrenRead_def by (simp add: piece_simps(1))

lemma childrenRead_markup:
  assumes sp: "list_all (\<lambda>c. c = CHR '' '') P"
      and w: "isRun w" "list_all plainChar w"
      and cr: "childrenRead P k [] cs cs' w'"
      and pc: "piece P k c = CHR 0x0A # repeat P k @ CHR ''<'' # m"
      and pc': "piece P k c' = piece P k c"
      and rd: "\<And>stack acc rest. stack \<noteq> [] \<Longrightarrow>
                 parseNodes stack acc (CHR ''<'' # m @ rest) = parseNodes stack (acc @ [c']) rest"
      and sk: "map skeleton (filter isElement [c']) = map skeleton (filter isElement [c])"
  shows "childrenRead P k w (c # cs) (Text (w @ CHR 0x0A # repeat P k) # c' # cs') w'"
proof -
  define w1 where "w1 = w @ CHR 0x0A # repeat P k"
  have w1: "w1 \<noteq> []" "list_all plainChar w1"
    using w(2) pad_facts(1)[OF sp, of k] by (simp_all add: w1_def)
  have tp: "textPiece w1 = w"
    unfolding w1_def by (rule textPiece_run[OF w(1) pad_facts(2)[OF sp]])
  note d = childrenReadD[OF cr]
  have content: "concat (map (piece P k) (Text w1 # c' # cs')) @ w' = w @ concat (map (piece P k) (c # cs))"
  proof -
    have "concat (map (piece P k) (Text w1 # c' # cs')) @ w'
            = w @ piece P k c @ (concat (map (piece P k) cs') @ w')"
      by (simp add: piece_simps(1) tp pc')
    also have "concat (map (piece P k) cs') @ w' = concat (map (piece P k) cs)"
      using d(3) by simp
    finally show ?thesis by simp
  qed
  have skel: "map skeleton (filter isElement (Text w1 # c' # cs')) = map skeleton (filter isElement (c # cs))"
  proof -
    have "filter isElement (Text w1 # c' # cs') = filter isElement [c'] @ filter isElement cs'" by simp
    moreover have "filter isElement (c # cs) = filter isElement [c] @ filter isElement cs" by simp
    ultimately show ?thesis using sk d(4) by (simp only: map_append)
  qed
  have parse: "parseNodes stack acc (w @ concat (map (piece P k) (c # cs)) @ rest) =
                 parseNodes stack (acc @ Text w1 # c' # cs') (w' @ rest)"
    if st: "stack \<noteq> []" for stack acc rest
  proof -
    define R where "R = concat (map (piece P k) cs) @ rest"
    have "w @ concat (map (piece P k) (c # cs)) @ rest = w1 @ CHR ''<'' # (m @ R)"
      by (simp add: pc w1_def R_def)
    also have "parseNodes stack acc (w1 @ CHR ''<'' # (m @ R)) =
                 parseNodes stack (acc @ [Text w1]) (CHR ''<'' # (m @ R))"
      by (rule parseNodes_text[OF st w1])
    also have "\<dots> = parseNodes stack ((acc @ [Text w1]) @ [c']) R"
      using rd[OF st, of "acc @ [Text w1]" R] by simp
    also have "\<dots> = parseNodes stack (((acc @ [Text w1]) @ [c']) @ cs') (w' @ rest)"
      unfolding R_def using d(5)[OF st, of "(acc @ [Text w1]) @ [c']" rest] by simp
    finally show ?thesis by simp
  qed
  show ?thesis
    unfolding childrenRead_def w1_def[symmetric]
    using d(1,2) content skel parse by blast
qed

lemma isRun_Nil: "isRun []"
  by (simp add: isRun_def)

lemma reparseChildren_reads:
  assumes sp: "list_all (\<lambda>c. c = CHR '' '') P"
  shows "list_all plain cs \<Longrightarrow> \<forall>c\<in>set cs. isElement c \<longrightarrow> reads P c \<Longrightarrow>
         isRun w \<Longrightarrow> list_all plainChar w \<Longrightarrow>
         childrenRead P k w cs (fst (reparseChildren P k w cs)) (snd (reparseChildren P k w cs))"
proof (induction cs arbitrary: w)
  case Nil
  then show ?case by (simp add: childrenRead_Nil)
next
  case (Cons c cs)
  from Cons.prems have pcs: "list_all plain cs" and rcs: "\<forall>c\<in>set cs. isElement c \<longrightarrow> reads P c"
    by auto
  define cs' where "cs' = fst (reparseChildren P k [] cs)"
  define w' where "w' = snd (reparseChildren P k [] cs)"
  have ih0: "childrenRead P k [] cs cs' w'"
    unfolding cs'_def w'_def by (rule Cons.IH[OF pcs rcs isRun_Nil]) simp
  show ?case
  proof (cases c)
    case (Element t as cs0)
    from Cons.prems(2) Element have rd: "reads P c" by simp
    define c' where "c' = reparseNode P k c"
    from rd have c': "formatNode P c' k = formatNode P c k" "skeleton c' = skeleton c" "isElement c'"
      and prs: "\<And>stack acc rest. stack \<noteq> [] \<Longrightarrow>
          parseNodes stack acc (markup P k c @ rest) = parseNodes stack (acc @ [c']) rest"
      unfolding reads_def c'_def by blast+
    obtain m where m: "markup P k c = CHR ''<'' # m" using markup_starts by blast
    have res: "reparseChildren P k w (c # cs) = (Text (w @ CHR 0x0A # repeat P k) # c' # cs', w')"
      unfolding Element c'_def cs'_def w'_def
      by (simp add: case_prod_unfold del: reparseNode.simps)
    have pc: "piece P k c = CHR 0x0A # repeat P k @ CHR ''<'' # m"
      unfolding Element piece_simps(5) m[unfolded Element] ..
    have pc': "piece P k c' = piece P k c" by (simp add: piece_def c'(1))
    have sk: "map skeleton (filter isElement [c']) = map skeleton (filter isElement [c])"
      using c'(2,3) Element by simp
    have "childrenRead P k w (c # cs) (Text (w @ CHR 0x0A # repeat P k) # c' # cs') w'"
      by (rule childrenRead_markup[OF sp Cons.prems(3,4) ih0 pc pc' _ sk])
         (use prs m in simp)
    then show ?thesis unfolding res by simp
  next
    case (Comment s)
    from Cons.prems(1) Comment have cd: "commentData s" by simp
    have res: "reparseChildren P k w (c # cs) = (Text (w @ CHR 0x0A # repeat P k) # c # cs', w')"
      unfolding Comment cs'_def w'_def by (simp add: case_prod_unfold)
    have pc: "piece P k c = CHR 0x0A # repeat P k @ CHR ''<'' # (''!--'' @ s @ ''-->'')"
      unfolding Comment piece_simps(4) by simp
    have "childrenRead P k w (c # cs) (Text (w @ CHR 0x0A # repeat P k) # c # cs') w'"
      by (rule childrenRead_markup[OF sp Cons.prems(3,4) ih0 pc refl _ refl])
         (use parseNodes_comment[OF cd] Comment in simp)
    then show ?thesis unfolding res by simp
  next
    case (Text s)
    from Cons.prems(1) Text have ps: "list_all plainChar s" by simp
    have w2: "isRun (w @ textPiece s)" "list_all plainChar (w @ textPiece s)"
      using Cons.prems(3,4) isRun_append[OF _ isRun_textPiece] textPiece_plain[OF ps] by auto
    show ?thesis
      unfolding Text reparseChildren.simps
      by (rule childrenRead_text[OF Cons.IH[OF pcs rcs w2]])
  next
    case (CDATASection s)
    show ?thesis
      unfolding CDATASection reparseChildren.simps
      by (rule childrenRead_skip[OF Cons.IH[OF pcs rcs Cons.prems(3,4)]]) (simp_all add: piece_simps)
  next
    case (ProcessingInstruction t s)
    show ?thesis
      unfolding ProcessingInstruction reparseChildren.simps
      by (rule childrenRead_skip[OF Cons.IH[OF pcs rcs Cons.prems(3,4)]]) (simp_all add: piece_simps)
  qed
qed

lemma markup_Element:
  "markup P k (Element t as cs) =
     CHR ''<'' # t @ attrsString as @ CHR ''>'' # inner P k (Element t as cs) @ ''</'' @ t @ ''>''"
  by (simp add: markup_def)

lemma formatNode_same_inner:
  "inner P k (Element t as cs') = inner P k (Element t as cs) \<Longrightarrow>
   formatNode P (Element t as cs') k = formatNode P (Element t as cs) k"
  by (simp only: formatNode_Element markup_Element)

text \<open>Reading an element whose content the formatter wrote as text (possibly empty).\<close>

lemma parse_text_element:
  assumes t: "validName t" "list_all plainAttribute as" "distinct (map fst as)"
      and tx: "list_all plainChar tx"
      and lvl: "stack \<noteq> [] \<or> \<not> list_ex isElement acc"
  shows "parseNodes stack acc (CHR ''<'' # t @ attrsString as @ CHR ''>'' # tx @ ''</'' @ t @ ''>'' @ rest) =
           parseNodes stack (acc @ [Element t as (if tx = [] then [] else [Text tx])]) rest"
proof -
  have "parseNodes stack acc (CHR ''<'' # t @ attrsString as @ CHR ''>'' # (tx @ ''</'' @ t @ ''>'' @ rest)) =
          parseNodes ((t, as, acc) # stack) [] (tx @ ''</'' @ t @ ''>'' @ rest)"
    by (rule parseNodes_start[OF t lvl])
  also have "\<dots> = parseNodes ((t, as, acc) # stack) (if tx = [] then [] else [Text tx]) (''</'' @ t @ ''>'' @ rest)"
  proof (cases "tx = []")
    case True
    then show ?thesis by simp
  next
    case False
    have "parseNodes ((t, as, acc) # stack) [] (tx @ CHR ''<'' # (''/'' @ t @ ''>'' @ rest)) =
            parseNodes ((t, as, acc) # stack) ([] @ [Text tx]) (CHR ''<'' # (''/'' @ t @ ''>'' @ rest))"
      by (rule parseNodes_text[OF _ False tx]) simp
    with False show ?thesis by simp
  qed
  also have "\<dots> = parseNodes stack (acc @ [Element t as (if tx = [] then [] else [Text tx])]) rest"
    by (rule parseNodes_end[OF t(1)])
  finally show ?thesis by simp
qed

lemma descendantText_plain:
  "list_all plain cs \<Longrightarrow> \<not> list_ex isElement cs \<Longrightarrow>
   list_all plainChar (concat (map descendantText cs))"
proof (induction cs)
  case Nil
  show ?case by simp
next
  case (Cons c cs)
  then show ?case by (cases c) auto
qed

lemma trim_plain: "list_all plainChar s \<Longrightarrow> list_all plainChar (trim s)"
  using trim_subset[of s] by (auto simp: list_all_iff)

lemma filter_no_elements: "\<not> list_ex isElement cs \<Longrightarrow> filter isElement cs = []"
  by (induction cs) auto

lemma reads_no_elements:
  assumes pl: "plain (Element t as cs)" and ne: "\<not> list_ex isElement cs"
  shows "reads P (Element t as cs)"
proof -
  define tx where "tx = trim (descendantText (Element t as cs))"
  from pl have t: "validName t" "list_all plainAttribute as" "distinct (map fst as)"
    and pcs: "list_all plain cs" by simp_all
  have txp: "list_all plainChar tx"
    unfolding tx_def using trim_plain[OF descendantText_plain[OF pcs ne]] by simp
  have in0: "inner P k (Element t as cs) = tx" for k
    using ne by (cases "cs = []") (simp_all add: inner_def tx_def trim_def)
  define e' where "e' = Element t as (if tx = [] then [] else [Text tx])"
  have re: "reparseNode P k (Element t as cs) = e'" for k
    using ne by (cases "cs = []") (simp_all add: e'_def tx_def trim_def)
  have in1: "inner P k e' = tx" for k
    by (simp add: e'_def inner_def) (simp add: tx_def trim_idem)
  have f: "formatNode P e' k = formatNode P (Element t as cs) k" for k
    unfolding e'_def by (rule formatNode_same_inner) (simp add: in0 in1[unfolded e'_def])
  have sk: "skeleton e' = skeleton (Element t as cs)"
    using filter_no_elements[OF ne] by (simp add: e'_def)
  have p: "parseNodes stack acc (markup P k (Element t as cs) @ rest) = parseNodes stack (acc @ [e']) rest"
    if "stack \<noteq> [] \<or> \<not> list_ex isElement acc" for stack acc rest k
    unfolding markup_Element in0 e'_def
    using parse_text_element[OF t txp that, of rest] by simp
  show ?thesis
    unfolding reads_def re using f sk p by (simp add: e'_def)
qed

lemma reads_with_elements:
  assumes sp: "list_all (\<lambda>c. c = CHR '' '') P"
      and pl: "plain (Element t as cs)" and el: "list_ex isElement cs"
      and ih: "\<forall>c\<in>set cs. isElement c \<longrightarrow> reads P c"
  shows "reads P (Element t as cs)"
proof -
  from pl have t: "validName t" "list_all plainAttribute as" "distinct (map fst as)"
    and pcs: "list_all plain cs" by simp_all
  from el have cne: "cs \<noteq> []" by auto
  have main: "formatNode P (reparseNode P k (Element t as cs)) k = formatNode P (Element t as cs) k
        \<and> skeleton (reparseNode P k (Element t as cs)) = skeleton (Element t as cs)
        \<and> isElement (reparseNode P k (Element t as cs))
        \<and> (\<forall>stack acc rest. stack \<noteq> [] \<or> \<not> list_ex isElement acc \<longrightarrow>
              parseNodes stack acc (markup P k (Element t as cs) @ rest) =
                parseNodes stack (acc @ [reparseNode P k (Element t as cs)]) rest)" for k
  proof -
    define cs' where "cs' = fst (reparseChildren P (k + 1) [] cs)"
    define w' where "w' = snd (reparseChildren P (k + 1) [] cs)"
    define wl where "wl = w' @ CHR 0x0A # repeat P k"
    have cr: "childrenRead P (k + 1) [] cs cs' w'"
      unfolding cs'_def w'_def
      by (rule reparseChildren_reads[OF sp pcs ih isRun_Nil]) simp
    note d = childrenReadD[OF cr]
    define e' where "e' = Element t as (cs' @ [Text wl])"
    have re: "reparseNode P k (Element t as cs) = e'"
      using el cne by (simp add: e'_def wl_def cs'_def w'_def case_prod_unfold)
    have wl: "wl \<noteq> []" "list_all plainChar wl" "textPiece wl = w'"
      using d(2) pad_facts(1)[OF sp, of k] textPiece_run[OF d(1) pad_facts(2)[OF sp, of k]]
      by (simp_all add: wl_def)
    have el': "list_ex isElement (cs' @ [Text wl])"
    proof -
      from el have "filter isElement cs \<noteq> []" by (induction cs) auto
      with d(4) have "filter isElement cs' \<noteq> []" by (metis map_is_Nil_conv)
      then have "list_ex isElement cs'" by (induction cs') (auto split: if_splits)
      then show ?thesis by (simp add: list_ex_iff)
    qed
    have in0: "inner P k (Element t as cs) = concat (map (piece P (k + 1)) cs) @ CHR 0x0A # repeat P k"
      using el cne by (simp add: inner_def)
    have in1: "inner P k e' = concat (map (piece P (k + 1)) cs) @ CHR 0x0A # repeat P k"
    proof -
      have "inner P k e' = concat (map (piece P (k + 1)) (cs' @ [Text wl])) @ CHR 0x0A # repeat P k"
        using el' unfolding e'_def inner_def by simp
      also have "concat (map (piece P (k + 1)) (cs' @ [Text wl])) = concat (map (piece P (k + 1)) cs') @ w'"
        by (simp add: piece_simps(1) wl(3))
      also have "\<dots> = concat (map (piece P (k + 1)) cs)" using d(3) by simp
      finally show ?thesis .
    qed
    have f: "formatNode P e' k = formatNode P (Element t as cs) k"
      unfolding e'_def by (rule formatNode_same_inner) (simp add: in0 in1[unfolded e'_def])
    have sk: "skeleton e' = skeleton (Element t as cs)"
      using d(4) by (simp add: e'_def)
    have p: "parseNodes stack acc (markup P k (Element t as cs) @ rest) = parseNodes stack (acc @ [e']) rest"
      if lvl: "stack \<noteq> [] \<or> \<not> list_ex isElement acc" for stack acc rest
    proof -
      define st where "st = (t, as, acc) # stack"
      have st: "st \<noteq> []" by (simp add: st_def)
      define R where "R = CHR 0x0A # repeat P k @ ''</'' @ t @ ''>'' @ rest"
      have "markup P k (Element t as cs) @ rest
              = CHR ''<'' # t @ attrsString as @ CHR ''>'' # (concat (map (piece P (k + 1)) cs) @ R)"
        by (simp add: markup_Element in0 R_def)
      also have "parseNodes stack acc \<dots> = parseNodes st [] (concat (map (piece P (k + 1)) cs) @ R)"
        unfolding st_def by (rule parseNodes_start[OF t lvl])
      also have "\<dots> = parseNodes st ([] @ cs') (w' @ R)"
        using d(5)[OF st, of "[]" R] by simp
      also have "w' @ R = wl @ CHR ''<'' # (''/'' @ t @ ''>'' @ rest)"
        by (simp add: wl_def R_def)
      also have "parseNodes st ([] @ cs') (wl @ CHR ''<'' # (''/'' @ t @ ''>'' @ rest)) =
                   parseNodes st (([] @ cs') @ [Text wl]) (CHR ''<'' # (''/'' @ t @ ''>'' @ rest))"
        by (rule parseNodes_text[OF st wl(1,2)])
      also have "\<dots> = parseNodes stack (acc @ [Element t as (cs' @ [Text wl])]) rest"
        unfolding st_def using parseNodes_end[OF t(1), of as acc stack "cs' @ [Text wl]" rest] by simp
      finally show ?thesis by (simp add: e'_def)
    qed
    show ?thesis unfolding re using f sk p by (simp add: e'_def)
  qed
  show ?thesis unfolding reads_def using main by blast
qed

lemma reads_plain_element:
  assumes sp: "list_all (\<lambda>c. c = CHR '' '') P"
  shows "plain e \<Longrightarrow> isElement e \<Longrightarrow> reads P e"
proof (induction e)
  case (Element t as cs)
  show ?case
  proof (cases "list_ex isElement cs")
    case True
    have "\<forall>c\<in>set cs. isElement c \<longrightarrow> reads P c"
      using Element.IH Element.prems(1) by (auto simp: list_all_iff)
    then show ?thesis by (rule reads_with_elements[OF sp Element.prems(1) True])
  next
    case False
    then show ?thesis by (rule reads_no_elements[OF Element.prems(1)])
  qed
qed simp_all

subsection \<open>The formatted text as a document\<close>

definition okChar :: "char \<Rightarrow> bool" where
  "okChar c = (isXmlChar c \<and> c \<noteq> CHR 0x0D)"

lemma okChar_simps:
  "plainChar c \<Longrightarrow> okChar c" "attrChar c \<Longrightarrow> okChar c" "isNameChar c \<Longrightarrow> okChar c"
  "okChar (CHR ''<'')" "okChar (CHR ''>'')" "okChar (CHR ''/'')" "okChar (CHR ''='')"
  "okChar (CHR '' '')" "okChar (CHR 0x22)" "okChar (CHR 0x0A)" "okChar (CHR ''!'')" "okChar (CHR ''-'')"
  by (auto simp: okChar_def plainChar_def attrChar_def isXmlChar_def isNameChar_def
      isNameStartChar_def isDigit_def Let_def)

lemma okChar_list:
  "list_all plainChar s \<Longrightarrow> list_all okChar s"
  "list_all attrChar s \<Longrightarrow> list_all okChar s"
  "list_all isNameChar s \<Longrightarrow> list_all okChar s"
  "list_all (\<lambda>c. c = CHR '' '') s \<Longrightarrow> list_all okChar s"
  by (induction s) (simp_all add: okChar_simps)

lemma okChar_attrsString:
  "list_all plainAttribute as \<Longrightarrow> list_all okChar (attrsString as)"
proof (induction as)
  case Nil
  show ?case by (simp add: attrsString_def)
next
  case (Cons a as)
  obtain n v where a: "a = (n, v)" by (cases a)
  from Cons.prems a have "list_all okChar n" "list_all okChar v"
    by (simp_all add: plainAttribute_def validName_def okChar_list)
  with Cons show ?case by (simp add: a attrsString_Cons okChar_simps)
qed

lemma okChar_descendantText:
  "plain e \<Longrightarrow> list_all okChar (descendantText e)"
proof (induction e)
  case (Element t as cs)
  then have "\<forall>c\<in>set cs. list_all okChar (descendantText c)" by (auto simp: list_all_iff)
  then show ?case by (induction cs) auto
qed (simp_all add: okChar_list)

lemma okChar_formatNode:
  assumes sp: "list_all (\<lambda>c. c = CHR '' '') P"
  shows "plain e \<Longrightarrow> list_all okChar (formatNode P e k)"
proof (induction e arbitrary: k)
  case (Element t as cs)
  have pad: "list_all okChar (repeat P k)" for k
    by (rule okChar_list(4)[OF spaces_repeat[OF sp]])
  from Element.prems have t: "list_all okChar t" and as: "list_all okChar (attrsString as)"
    by (simp_all add: validName_def okChar_list okChar_attrsString)
  have "\<forall>c\<in>set cs. list_all okChar (piece P (k + 1) c)"
    using Element.IH Element.prems by (auto simp: list_all_iff piece_def okChar_simps)
  then have pieces: "list_all okChar (concat (map (piece P (k + 1)) cs))"
    by (induction cs) auto
  have "list_all okChar (trim (descendantText (Element t as cs)))"
    using okChar_descendantText[OF Element.prems] trim_subset[of "descendantText (Element t as cs)"]
    by (auto simp: list_all_iff)
  with pieces pad have "list_all okChar (inner P k (Element t as cs))"
    by (simp add: inner_def okChar_simps del: descendantText.simps)
  with t as pad show ?case
    by (simp add: formatNode_Element markup_Element okChar_simps del: formatNode.simps)
next
  case (Text s)
  then show ?case using trim_subset[of s] okChar_list(1)[of s] by (auto simp: list_all_iff)
next
  case (Comment s)
  have "list_all okChar (repeat P k)" by (rule okChar_list(4)[OF spaces_repeat[OF sp]])
  moreover from Comment have "list_all okChar s" by (simp add: commentData_def okChar_def[abs_def])
  ultimately show ?case by (simp add: okChar_simps)
qed simp_all

lemma normalizeLineEnds_id: "CHR 0x0D \<notin> set s \<Longrightarrow> normalizeLineEnds s = s"
  by (induction s rule: normalizeLineEnds.induct) auto

lemma formatNode_root: "formatNode P (Element t as cs) 0 = markup P 0 (Element t as cs)"
  unfolding formatNode_Element by (simp add: repeat_def)

lemma skipXmlDeclaration_markup:
  assumes "validName t"
  shows "skipXmlDeclaration (markup P 0 (Element t as cs)) = Some (markup P 0 (Element t as cs))"
proof -
  from assms obtain c t' where t: "t = c # t'" "isNameStartChar c"
    by (cases t) (simp_all add: validName_def)
  have c: "c \<noteq> CHR ''?''" using t(2) not_nameStartChar(2) by blast
  obtain m where m: "markup P 0 (Element t as cs) = CHR ''<'' # c # m"
    by (simp add: markup_Element t(1))
  have "take 5 (CHR ''<'' # c # m) \<noteq> ''<?xml''" using c by (simp add: take_Cons')
  then show ?thesis
    unfolding m skipXmlDeclaration_def by (simp only: if_False simp_thms)
qed

lemma readsD:
  assumes "reads P e"
  shows "formatNode P (reparseNode P k e) k = formatNode P e k"
    and "skeleton (reparseNode P k e) = skeleton e"
    and "isElement (reparseNode P k e)"
    and "stack \<noteq> [] \<or> \<not> list_ex isElement acc \<Longrightarrow>
           parseNodes stack acc (markup P k e @ rest) = parseNodes stack (acc @ [reparseNode P k e]) rest"
proof -
  from assms have a: "formatNode P (reparseNode P k e) k = formatNode P e k
        \<and> skeleton (reparseNode P k e) = skeleton e
        \<and> isElement (reparseNode P k e)
        \<and> (\<forall>stack acc rest. stack \<noteq> [] \<or> \<not> list_ex isElement acc \<longrightarrow>
              parseNodes stack acc (markup P k e @ rest) =
                parseNodes stack (acc @ [reparseNode P k e]) rest)"
    unfolding reads_def by (rule allE)
  from a show "formatNode P (reparseNode P k e) k = formatNode P e k" by (rule conjunct1)
  from a show "skeleton (reparseNode P k e) = skeleton e" by (elim conjE)
  from a show "isElement (reparseNode P k e)" by (elim conjE)
  from a have "\<forall>stack acc rest. stack \<noteq> [] \<or> \<not> list_ex isElement acc \<longrightarrow>
              parseNodes stack acc (markup P k e @ rest) =
                parseNodes stack (acc @ [reparseNode P k e]) rest" by (elim conjE)
  then show "stack \<noteq> [] \<or> \<not> list_ex isElement acc \<Longrightarrow>
           parseNodes stack acc (markup P k e @ rest) = parseNodes stack (acc @ [reparseNode P k e]) rest"
    by (elim allE impE) assumption+
qed

lemma parseNodes_markup_root:
  assumes sp: "list_all (\<lambda>c. c = CHR '' '') P"
      and pl: "plain e" and el: "isElement e"
  shows "parseNodes [] [] (markup P 0 e) = Inr [reparseNode P 0 e]"
    and "isElement (reparseNode P 0 e)"
proof -
  note rd = readsD[OF reads_plain_element[OF sp pl el]]
  have "parseNodes [] [] (markup P 0 e @ []) = parseNodes [] ([] @ [reparseNode P 0 e]) []"
    by (rule rd(4)) simp
  also have "\<dots> = Inr [reparseNode P 0 e]"
    by (subst parseNodes.simps) simp
  finally show "parseNodes [] [] (markup P 0 e) = Inr [reparseNode P 0 e]" by simp
  show "isElement (reparseNode P 0 e)" by (rule rd(3))
qed

lemma parseFromString_formatted:
  assumes sp: "list_all (\<lambda>c. c = CHR '' '') P"
      and pl: "plain e" and el: "isElement e"
  shows "parseFromString (formatNode P e 0) = Document [reparseNode P 0 e]"
proof -
  obtain t as cs where e: "e = Element t as cs" using el by (cases e) auto
  have f: "formatNode P e 0 = markup P 0 e" unfolding e by (rule formatNode_root)
  have ok: "list_all okChar (markup P 0 e)"
    using okChar_formatNode[OF sp pl, of 0] unfolding f .
  then have x: "list_all isXmlChar (markup P 0 e)" and cr: "CHR 0x0D \<notin> set (markup P 0 e)"
    by (auto simp: list_all_iff okChar_def)
  have sk: "skipXmlDeclaration (markup P 0 e) = Some (markup P 0 e)"
    unfolding e by (rule skipXmlDeclaration_markup) (use pl e in simp)
  note pn = parseNodes_markup_root[OF sp pl el]
  from pn(2) have "list_ex isElement [reparseNode P 0 e]" by simp
  then show ?thesis
    unfolding parseFromString_def f normalizeLineEnds_id[OF cr] sk
    using x by (simp add: pn(1) del: reparseNode.simps)
qed

subsection \<open>Selectors only see the elements\<close>

lemma skeleton_isElement [simp]: "isElement (skeleton n) = isElement n"
  by (cases n) auto

lemma subtreeElements_other: "\<not> isElement n \<Longrightarrow> subtreeElements n = []"
  by (cases n) auto

lemma subtreeElements_skeleton:
  "map skeleton (subtreeElements e) = subtreeElements (skeleton e)"
proof (induction e)
  case (Element t as cs)
  have "concat (map (\<lambda>c. map skeleton (subtreeElements c)) cs)
          = concat (map (\<lambda>c. subtreeElements (skeleton c)) (filter isElement cs))"
    using Element.IH
  proof (induction cs)
    case Nil
    show ?case by simp
  next
    case (Cons c cs)
    then show ?case by (cases "isElement c") (auto simp: subtreeElements_other)
  qed
  then show ?case by (simp add: map_concat comp_def)
qed simp_all

definition skeletal :: "(node \<Rightarrow> bool) \<Rightarrow> bool" where
  "skeletal sel = (\<forall>n. sel (skeleton n) = sel n)"

lemma skeletal_matchesType: "skeletal (matchesType name)"
  unfolding skeletal_def
proof
  fix n show "matchesType name (skeleton n) = matchesType name n"
    by (cases n) (simp_all add: matchesType_def)
qed

lemma skeletal_matchesClass: "skeletal (matchesClass name)"
  unfolding skeletal_def
proof
  fix n show "matchesClass name (skeleton n) = matchesClass name n"
    by (cases n) (simp_all add: matchesClass_def getAttribute_def)
qed

lemma find_skeleton:
  "skeletal sel \<Longrightarrow> find sel (map skeleton xs) = map_option skeleton (find sel xs)"
  by (induction xs) (auto simp: skeletal_def)

lemma filter_skeleton:
  "skeletal sel \<Longrightarrow> filter sel (map skeleton xs) = map skeleton (filter sel xs)"
  by (induction xs) (auto simp: skeletal_def)

lemma find_subtree_skeleton:
  assumes "skeletal sel" "skeleton e' = skeleton e"
  shows "map_option skeleton (find sel (subtreeElements e')) = map_option skeleton (find sel (subtreeElements e))"
  using find_skeleton[OF assms(1), of "subtreeElements e'"] find_skeleton[OF assms(1), of "subtreeElements e"]
  by (simp add: subtreeElements_skeleton assms(2))

definition plainRoot :: "document \<Rightarrow> bool" where
  "plainRoot doc = (case documentElement doc of None \<Rightarrow> False | Some root \<Rightarrow> plain root)"

lemma find_in_document:
  assumes "find isElement ns = Some root"
      and "find sel (documentElements (Document ns)) = None"
  shows "find sel (subtreeElements root) = None"
proof -
  from assms(1) have "root \<in> set ns" by (auto simp: find_Some_iff)
  then have "set (subtreeElements root) \<subseteq> set (documentElements (Document ns))" by auto
  with assms(2) show ?thesis unfolding find_None_iff by blast
qed

text \<open>
  C2, as stated, fails: the formatter writes text as it stands in the tree, without
  escaping it. Escaped markup in the input becomes markup in the output, which the
  second pass formats as elements.
\<close>

theorem format_not_idempotent_counterexample:
  "formatXmlPreserveInline ''<html>&lt;b&gt;x&lt;/b&gt;</html>'' 2 = Inr ''<html><b>x</b></html>''
   \<and> formatXmlPreserveInline ''<html><b>x</b></html>'' 2
       = Inr ''<html>\<newline>  <b>x</b>\<newline></html>''"
  by code_simp

text \<open>
  C2, amended. When the root of the parsed input is plain (its text and CDATA sections
  hold none of \<open><\<close>, \<open>>\<close>, \<open>&\<close> and CR, its attribute values in addition no double quote,
  TAB or LF, its comments no \<open>--\<close> and no \<open>-\<close> at the end), formatting the formatted text
  again with the same indent size returns it unchanged.
\<close>

theorem format_idempotent_on_plain:
  assumes fx: "formatXmlPreserveInline xml indentSize = Inr y"
      and pr: "plainRoot (parseFromString xml)"
  shows "formatXmlPreserveInline y indentSize = Inr y"
proof (cases "docQuerySelector (matchesType ''parsererror'') (parseFromString xml)")
  case (Some pe)
  with fx have "y = xml"
    by (simp add: formatXmlPreserveInline_def formatXmlDoc_def split: if_splits)
  with fx show ?thesis by simp
next
  case None
  obtain ns where doc: "parseFromString xml = Document ns" by (cases "parseFromString xml")
  from pr obtain root where root: "find isElement ns = Some root" and pl: "plain root"
    by (auto simp: plainRoot_def doc split: option.splits)
  then have el: "isElement root" by (auto simp: find_Some_iff)
  from fx have n: "\<not> indentSize < 0"
    by (auto simp: formatXmlPreserveInline_def formatXmlDoc_def)
  define P where "P = repeat '' '' (nat indentSize)"
  have sp: "list_all (\<lambda>c. c = CHR '' '') P"
    unfolding P_def by (rule spaces_repeat) simp
  from fx None root n have y: "y = formatNode P root 0"
    by (simp add: formatXmlPreserveInline_def formatXmlDoc_def doc P_def del: formatNode.simps)
  define r where "r = reparseNode P 0 root"
  note rd = readsD[OF reads_plain_element[OF sp pl el], where k = 0, folded r_def]
  have py: "parseFromString y = Document [r]"
    unfolding y r_def by (rule parseFromString_formatted[OF sp pl el])
  have "find (matchesType ''parsererror'') (subtreeElements root) = None"
    using find_in_document[OF root] None by (simp add: docQuerySelector_def doc)
  with find_subtree_skeleton[OF skeletal_matchesType rd(2), of "''parsererror''"]
  have "find (matchesType ''parsererror'') (subtreeElements r) = None" by simp
  then have "docQuerySelector (matchesType ''parsererror'') (Document [r]) = None"
    by (simp add: docQuerySelector_def)
  moreover have "documentElement (Document [r]) = Some r" using rd(3) by simp
  ultimately show ?thesis
    using n rd(1)
    by (simp add: formatXmlPreserveInline_def formatXmlDoc_def py[unfolded y] P_def[symmetric] y
        del: formatNode.simps)
qed

lemma idempotent_example_formatted:
  "formatXmlPreserveInline ''<a x=\"1\"> <b>t</b><!--c-->u </a>'' 2
     = Inr ''<a x=\"1\">\<newline>  <b>t</b>\<newline>  <!--c-->\<newline>u\<newline></a>''"
  by code_simp

lemma idempotent_example_plain:
  "plainRoot (parseFromString ''<a x=\"1\"> <b>t</b><!--c-->u </a>'')"
  by code_simp

theorem format_idempotent_on_plain_witness:
  "formatXmlPreserveInline ''<a x=\"1\">\<newline>  <b>t</b>\<newline>  <!--c-->\<newline>u\<newline></a>'' 2
     = Inr ''<a x=\"1\">\<newline>  <b>t</b>\<newline>  <!--c-->\<newline>u\<newline></a>''"
  using format_idempotent_on_plain[OF idempotent_example_formatted idempotent_example_plain] .

end
